theory Spec2Isabelle
  imports Complex_Main
begin

section \<open>JavaScript numbers\<close>

text \<open>
  The benchmark engine computes on JavaScript numbers. A measurement (a latency, a recall
  fraction, a count) is a finite number and is modelled as a \<open>real\<close>; rounding of IEEE
  doubles and the sign of zero are not modelled. What the statistics return can leave the
  finite numbers, because the code divides by \<open>values.length\<close> and \<open>values.length - 1\<close>
  without a guard: \<open>0 / 0\<close> is \<open>NaN\<close> and \<open>x / 0\<close> is an infinity. The type \<open>jsnum\<close>
  holds these results, and the arithmetic operators of the source are the total operations
  below (a zero divisor is always a length, a length minus one, or a square root, so it is
  a positive zero).
\<close>

datatype jsnum = Num real | NaN | PosInf | NegInf

fun js_neg :: "jsnum \<Rightarrow> jsnum" where
  "js_neg (Num a) = Num (- a)"
| "js_neg NaN = NaN"
| "js_neg PosInf = NegInf"
| "js_neg NegInf = PosInf"

fun js_add :: "jsnum \<Rightarrow> jsnum \<Rightarrow> jsnum" where
  "js_add (Num a) (Num b) = Num (a + b)"
| "js_add NaN _ = NaN"
| "js_add _ NaN = NaN"
| "js_add PosInf NegInf = NaN"
| "js_add NegInf PosInf = NaN"
| "js_add PosInf _ = PosInf"
| "js_add _ PosInf = PosInf"
| "js_add NegInf _ = NegInf"
| "js_add _ NegInf = NegInf"

definition js_sub :: "jsnum \<Rightarrow> jsnum \<Rightarrow> jsnum" where
  "js_sub a b = js_add a (js_neg b)"

fun js_mul :: "jsnum \<Rightarrow> jsnum \<Rightarrow> jsnum" where
  "js_mul (Num a) (Num b) = Num (a * b)"
| "js_mul NaN _ = NaN"
| "js_mul _ NaN = NaN"
| "js_mul (Num a) PosInf = (if a = 0 then NaN else if 0 < a then PosInf else NegInf)"
| "js_mul (Num a) NegInf = (if a = 0 then NaN else if 0 < a then NegInf else PosInf)"
| "js_mul PosInf (Num b) = (if b = 0 then NaN else if 0 < b then PosInf else NegInf)"
| "js_mul NegInf (Num b) = (if b = 0 then NaN else if 0 < b then NegInf else PosInf)"
| "js_mul PosInf PosInf = PosInf"
| "js_mul NegInf NegInf = PosInf"
| "js_mul PosInf NegInf = NegInf"
| "js_mul NegInf PosInf = NegInf"

fun js_div :: "jsnum \<Rightarrow> jsnum \<Rightarrow> jsnum" where
  "js_div (Num a) (Num b) =
     (if b = 0 then (if a = 0 then NaN else if 0 < a then PosInf else NegInf)
      else Num (a / b))"
| "js_div NaN _ = NaN"
| "js_div _ NaN = NaN"
| "js_div (Num a) PosInf = Num 0"
| "js_div (Num a) NegInf = Num 0"
| "js_div PosInf (Num b) = (if 0 \<le> b then PosInf else NegInf)"
| "js_div NegInf (Num b) = (if 0 \<le> b then NegInf else PosInf)"
| "js_div PosInf PosInf = NaN"
| "js_div PosInf NegInf = NaN"
| "js_div NegInf PosInf = NaN"
| "js_div NegInf NegInf = NaN"

text \<open>\<open>x ** 2\<close> and \<open>Math.sqrt\<close>.\<close>

definition js_sq :: "jsnum \<Rightarrow> jsnum" where
  "js_sq a = js_mul a a"

fun js_sqrt :: "jsnum \<Rightarrow> jsnum" where
  "js_sqrt (Num a) = (if a < 0 then NaN else Num (sqrt a))"
| "js_sqrt NaN = NaN"
| "js_sqrt PosInf = PosInf"
| "js_sqrt NegInf = NaN"

text \<open>\<open>Math.min(...xs)\<close> and \<open>Math.max(...xs)\<close>; with no argument they are the infinities.\<close>

fun js_min :: "real list \<Rightarrow> jsnum" where
  "js_min [] = PosInf"
| "js_min (x # xs) = Num (fold min xs x)"

fun js_max :: "real list \<Rightarrow> jsnum" where
  "js_max [] = NegInf"
| "js_max (x # xs) = Num (fold max xs x)"

text \<open>\<open>Math.ceil\<close>; the ceiling of a double is a double.\<close>

fun js_ceil :: "jsnum \<Rightarrow> jsnum" where
  "js_ceil (Num a) = Num (real_of_int \<lceil>a\<rceil>)"
| "js_ceil x = x"

text \<open>\<open>Math.max(a, b)\<close>\<close>

fun Math_max :: "jsnum \<Rightarrow> jsnum \<Rightarrow> jsnum" where
  "Math_max (Num a) (Num b) = Num (max a b)"
| "Math_max NaN _ = NaN"
| "Math_max _ NaN = NaN"
| "Math_max PosInf _ = PosInf"
| "Math_max _ PosInf = PosInf"
| "Math_max NegInf b = b"
| "Math_max a NegInf = a"

subsection \<open>Rounding to a double\<close>

text \<open>
  Where a number is used as an index or a count, the rounding of the arithmetic decides
  which element is read, and the operations are the IEEE 754 binary64 operations: the exact result,
  rounded to the nearest double, ties to the even significand, with the fixed spacing of
  the subnormal numbers below \<open>2\<^sup>-\<^sup>1\<^sup>0\<^sup>2\<^sup>2\<close> and an infinity from \<open>2\<^sup>1\<^sup>0\<^sup>2\<^sup>4\<close> on.
\<close>

definition round_ties_even :: "real \<Rightarrow> int" where
  "round_ties_even r =
     (let f = \<lfloor>r\<rfloor>; d = r - of_int f
      in if d < 1 / 2 then f else if 1 / 2 < d then f + 1 else if even f then f else f + 1)"

text \<open>The exponent of the binade of \<open>x\<close>, and the spacing of the doubles in it.\<close>

definition double_exponent :: "real \<Rightarrow> int" where
  "double_exponent x = (if x = 0 then - 1022 else max \<lfloor>log 2 \<bar>x\<bar>\<rfloor> (- 1022))"

definition ulp :: "real \<Rightarrow> real" where
  "ulp x = 2 powi (double_exponent x - 52)"

definition nearest_double :: "real \<Rightarrow> real" where
  "nearest_double x = sgn x * (of_int (round_ties_even (\<bar>x\<bar> / ulp x)) * ulp x)"

fun to_double :: "jsnum \<Rightarrow> jsnum" where
  "to_double (Num x) =
     (let r = nearest_double x
      in if 2 ^ 1024 \<le> r then PosInf else if r \<le> - (2 ^ 1024) then NegInf else Num r)"
| "to_double v = v"

text \<open>\<open>a / b\<close>, \<open>a * b\<close> and \<open>a - b\<close> on doubles.\<close>

definition dbl_div :: "jsnum \<Rightarrow> jsnum \<Rightarrow> jsnum" where
  "dbl_div a b = to_double (js_div a b)"

definition dbl_mul :: "jsnum \<Rightarrow> jsnum \<Rightarrow> jsnum" where
  "dbl_mul a b = to_double (js_mul a b)"

definition dbl_sub :: "jsnum \<Rightarrow> jsnum \<Rightarrow> jsnum" where
  "dbl_sub a b = to_double (js_sub a b)"

text \<open>
  The read \<open>xs[v]\<close> of an array at a number: the element when \<open>v\<close> is an integer from \<open>0\<close>
  to \<open>xs.length - 1\<close>, and \<open>undefined\<close> (\<open>None\<close>) otherwise.
\<close>

definition array_read :: "real list \<Rightarrow> jsnum \<Rightarrow> real option" where
  "array_read xs v =
     (case v of
        Num r \<Rightarrow>
          (if 0 \<le> r \<and> r = of_int \<lfloor>r\<rfloor> \<and> nat \<lfloor>r\<rfloor> < length xs then Some (xs ! nat \<lfloor>r\<rfloor>)
           else None)
      | _ \<Rightarrow> None)"

section \<open>Statistics of the recall benchmark (recall-benchmark.ts)\<close>

text \<open>
  \<^verbatim>\<open>function mean(values) { return values.reduce((a, b) => a + b, 0) / values.length; }\<close>
\<close>

definition mean :: "real list \<Rightarrow> jsnum" where
  "mean values = js_div (Num (foldl (+) 0 values)) (Num (real (length values)))"

text \<open>
  \<^verbatim>\<open>const m = mean(values);
  const variance = values.reduce((sum, v) => sum + (v - m) ** 2, 0) / (values.length - 1);
  return Math.sqrt(variance);\<close>
  The length is a number, so \<open>values.length - 1\<close> is \<open>-1\<close> for the empty array.
\<close>

definition std :: "real list \<Rightarrow> jsnum" where
  "std values =
     (let m = mean values;
          variance = js_div (foldl (\<lambda>sum v. js_add sum (js_sq (js_sub (Num v) m))) (Num 0) values)
                            (Num (real (length values) - 1))
      in js_sqrt variance)"

text \<open>
  \<^verbatim>\<open>const sorted = [...values].sort((a, b) => a - b);
  const mid = Math.floor(sorted.length / 2);
  return sorted.length % 2 !== 0 ? sorted[mid] : (sorted[mid - 1] + sorted[mid]) / 2;\<close>
  On the empty array both reads are \<open>undefined\<close> and the sum is \<open>NaN\<close>.
\<close>

definition median :: "real list \<Rightarrow> jsnum" where
  "median values =
     (let sorted = sort values; mid = length sorted div 2
      in if length sorted mod 2 \<noteq> 0 then Num (sorted ! mid)
         else if mid = 0 then NaN
         else js_div (js_add (Num (sorted ! (mid - 1))) (Num (sorted ! mid))) (Num 2))"

text \<open>
  \<^verbatim>\<open>const m = mean(values);
  const se = std(values) / Math.sqrt(values.length);
  const t = values.length >= 30 ? 1.96 : 2.093;
  return [m - t * se, m + t * se];\<close>
\<close>

definition ci95 :: "real list \<Rightarrow> jsnum \<times> jsnum" where
  "ci95 values =
     (let m = mean values;
          se = js_div (std values) (js_sqrt (Num (real (length values))));
          t = (if length values \<ge> 30 then Num 1.96 else Num 2.093)
      in (js_sub m (js_mul t se), js_add m (js_mul t se)))"

text \<open>
  The specification names a signal \<open>InsufficientSample\<close> for \<open>std\<close> on fewer than two
  values. No statement of \<open>std\<close> or of the functions it calls throws: a call of \<open>std\<close>
  always completes and hands its number to the caller.
\<close>

datatype stats_signal = InsufficientSample

definition std_outcome :: "real list \<Rightarrow> stats_signal + jsnum" where
  "std_outcome values = Inr (std values)"

section \<open>Percentile of the throughput and upsert benchmarks\<close>

text \<open>
  \<^verbatim>\<open>const sorted = [...arr].sort((a, b) => a - b);
  const idx = Math.ceil((p / 100) * sorted.length) - 1;
  return sorted[Math.max(0, idx)];\<close>
  The index is computed in doubles: the quotient and the product are each rounded. A read
  past the end of the array is \<open>undefined\<close>, here \<open>None\<close>.
\<close>

definition percentile :: "real list \<Rightarrow> real \<Rightarrow> real option" where
  "percentile arr p =
     (let sorted = sort arr;
          idx = dbl_sub (js_ceil (dbl_mul (dbl_div (Num p) (Num 100))
                                          (Num (real (length sorted)))))
                        (Num 1)
      in array_read sorted (Math_max (Num 0) idx))"

text \<open>The specification's wording of the same quantities, over the reals.\<close>

definition mean_spec :: "real list \<Rightarrow> real" where
  "mean_spec xs = sum_list xs / real (length xs)"

definition sample_std_spec :: "real list \<Rightarrow> real" where
  "sample_std_spec xs =
     sqrt ((\<Sum>x\<leftarrow>xs. (x - mean_spec xs)\<^sup>2) / (real (length xs) - 1))"

definition nearest_rank_index :: "nat \<Rightarrow> real \<Rightarrow> nat" where
  "nearest_rank_index n p = nat (min (int n - 1) (max 0 (\<lceil>p / 100 * real n\<rceil> - 1)))"

text \<open>
  The index the code reads: the same formula with the quotient and the product rounded to
  doubles, bounded from below only.
\<close>

definition double_rank_index :: "nat \<Rightarrow> real \<Rightarrow> nat" where
  "double_rank_index n p =
     nat (max 0 (\<lceil>nearest_double (nearest_double (p / 100) * real n)\<rceil> - 1))"

text \<open>The sample \<open>1, 2, \<dots>, 100\<close>.\<close>

definition one_to_hundred :: "real list" where
  "one_to_hundred = map real [1..<101]"

section \<open>The recall benchmark (recall-benchmark.ts)\<close>

definition DEFAULT_TOP_K_VALUES :: "nat list" where "DEFAULT_TOP_K_VALUES = [1, 5, 10, 20, 50, 100]"

definition DEFAULT_NUM :: nat where "DEFAULT_NUM = 20"

definition DEFAULT_RUNS :: nat where "DEFAULT_RUNS = 20"

definition DELAY_MS :: nat where "DELAY_MS = 150"

definition MAX_RETRIES :: nat where "MAX_RETRIES = 3"

definition RETRY_BASE_MS :: nat where "RETRY_BASE_MS = 1000"

text \<open>\<open>NAMESPACES\<close> of download.ts.\<close>

definition NAMESPACES :: "string list" where
  "NAMESPACES = [''wiki-openai'', ''wiki-minilm'', ''wiki-gte'', ''wiki-3-small'', ''wiki-3-large'']"

record RecallRun =
  namespace :: string
  top_k :: nat
  run :: nat
  avg_recall :: real
  avg_ann_count :: real
  avg_exhaustive_count :: real
  latency_ms :: real

text \<open>
  \<open>ConfigSummary\<close>, with the nested objects \<open>recall\<close>, \<open>avg_ann_count\<close>,
  \<open>avg_exhaustive_count\<close> and \<open>latency_ms\<close> flattened into prefixed fields.
\<close>

record ConfigSummary =
  summary_namespace :: string
  summary_top_k :: nat
  summary_runs :: nat
  recall_mean :: jsnum
  recall_std :: jsnum
  recall_ci95_lower :: jsnum
  recall_ci95_upper :: jsnum
  recall_min :: jsnum
  recall_max :: jsnum
  recall_median :: jsnum
  ann_count_mean :: jsnum
  ann_count_std :: jsnum
  exhaustive_count_mean :: jsnum
  exhaustive_count_std :: jsnum
  latency_mean :: jsnum
  latency_std :: jsnum
  latency_median :: jsnum

text \<open>
  What a statement of the benchmarks can throw: the error a rejected backend call carries
  (with its optional HTTP \<open>status\<close>), the \<open>TypeError\<close> of reading a property of
  \<open>undefined\<close> or \<open>null\<close>, the \<open>SyntaxError\<close> of \<open>JSON.parse\<close>, and an error of the
  file system.
\<close>

datatype js_error = BackendError "nat option" | TypeError | SyntaxError | FsError

text \<open>
  \<open>summarize\<close> reads \<open>runs[0].namespace\<close>: on the empty array \<open>runs[0]\<close> is \<open>undefined\<close>
  and the property read throws. The statistics before it do not throw.
\<close>

definition summarize :: "RecallRun list \<Rightarrow> js_error + ConfigSummary" where
  "summarize runs =
     (let recalls = map avg_recall runs;
          annCounts = map avg_ann_count runs;
          exhCounts = map avg_exhaustive_count runs;
          latencies = map latency_ms runs;
          (ci_lower, ci_upper) = ci95 recalls
      in case runs of
           [] \<Rightarrow> Inl TypeError
         | r0 # _ \<Rightarrow> Inr \<lparr>
             summary_namespace = namespace r0,
             summary_top_k = top_k r0,
             summary_runs = length runs,
             recall_mean = mean recalls,
             recall_std = std recalls,
             recall_ci95_lower = ci_lower,
             recall_ci95_upper = ci_upper,
             recall_min = js_min recalls,
             recall_max = js_max recalls,
             recall_median = median recalls,
             ann_count_mean = mean annCounts,
             ann_count_std = std annCounts,
             exhaustive_count_mean = mean exhCounts,
             exhaustive_count_std = std exhCounts,
             latency_mean = mean latencies,
             latency_std = std latencies,
             latency_median = median latencies \<rparr>)"

record BenchmarkOptions =
  opt_runs :: "nat option"
  opt_num :: "nat option"
  opt_topK :: "nat list option"
  opt_namespaces :: "string list option"

record Checkpoint =
  raw_runs :: "RecallRun list"
  completedConfigs :: "string list"

text \<open>Decimal digits of a number, as a template literal prints it.\<close>

definition digit_char :: "nat \<Rightarrow> char" where
  "digit_char d = ''0123456789'' ! d"

fun string_of_nat :: "nat \<Rightarrow> string" where
  "string_of_nat n =
     (if n < 10 then [digit_char n]
      else string_of_nat (n div 10) @ [digit_char (n mod 10)])"

declare string_of_nat.simps [simp del]

definition configKey :: "string \<Rightarrow> nat \<Rightarrow> string" where
  "configKey ns k = ns @ '':'' @ string_of_nat k"

text \<open>
  The backend is outside the program. A call of \<open>ns.recall\<close> either resolves with the three
  averages, after a measured time in milliseconds, or rejects with an error that may carry
  a \<open>status\<close>. The environment is a function of the number of calls made before, the
  namespace, \<open>num\<close> and \<open>top_k\<close>.
\<close>

record recall_response =
  res_avg_recall :: real
  res_avg_ann_count :: real
  res_avg_exhaustive_count :: real

datatype probe_outcome = Resolved recall_response real | Rejected "nat option"

type_synonym backend = "nat \<Rightarrow> string \<Rightarrow> nat \<Rightarrow> nat \<Rightarrow> probe_outcome"

text \<open>
  The mutable variables of \<open>runRecallBenchmark\<close> (\<open>rawRuns\<close>, the set \<open>completedConfigs\<close>
  in insertion order, \<open>completed\<close>) and what the run has done to the outside: the recall
  calls issued (namespace and \<open>top_k\<close>), the durations of the \<open>sleep\<close> calls, and the
  checkpoints written by \<open>saveCheckpoint\<close>, each in order.
\<close>

record bench =
  rawRuns :: "RecallRun list"
  completedSet :: "string list"
  completed :: nat
  probe_calls :: "(string \<times> nat) list"
  sleeps :: "nat list"
  saved :: "Checkpoint list"

definition set_add :: "string list \<Rightarrow> string \<Rightarrow> string list" where
  "set_add s x = (if x \<in> set s then s else s @ [x])"

definition new_Set :: "string list \<Rightarrow> string list" where
  "new_Set xs = foldl set_add [] xs"

text \<open>\<open>err.status !== undefined && err.status >= 500\<close>\<close>

definition isRetryable :: "nat option \<Rightarrow> bool" where
  "isRetryable status = (case status of None \<Rightarrow> False | Some s \<Rightarrow> s \<ge> 500)"

text \<open>
  The \<open>while (true)\<close> loop around \<open>ns.recall\<close>: it leaves with the result and the measured
  time, or by rethrowing the error.
\<close>

function recall_attempts ::
  "backend \<Rightarrow> string \<Rightarrow> nat \<Rightarrow> nat \<Rightarrow> nat \<Rightarrow> bench \<Rightarrow> (js_error + recall_response \<times> real) \<times> bench" where
  "recall_attempts be ns num k attempt st =
     (case be (length (probe_calls st)) ns num k of
        Resolved result latency \<Rightarrow>
          (Inr (result, latency), st\<lparr>probe_calls := probe_calls st @ [(ns, k)]\<rparr>)
      | Rejected status \<Rightarrow>
          if isRetryable status \<and> attempt < MAX_RETRIES
          then recall_attempts be ns num k (attempt + 1)
                 (st\<lparr>probe_calls := probe_calls st @ [(ns, k)],
                     sleeps := sleeps st @ [RETRY_BASE_MS * 2 ^ ((attempt + 1) - 1)]\<rparr>)
          else (Inl (BackendError status), st\<lparr>probe_calls := probe_calls st @ [(ns, k)]\<rparr>))"
  by pat_completeness auto

termination
  by (relation "measure (\<lambda>(be, ns, num, k, attempt, st). MAX_RETRIES - attempt)") auto

declare recall_attempts.simps [simp del]

text \<open>\<open>Math.round\<close> on a finite number.\<close>

definition Math_round :: "real \<Rightarrow> real" where
  "Math_round x = real_of_int \<lfloor>x + 1 / 2\<rfloor>"

text \<open>\<open>rawRuns.push({ namespace, top_k, run: run + 1, ..., latency_ms: Math.round(latency) })\<close>\<close>

definition push_run :: "string \<Rightarrow> nat \<Rightarrow> nat \<Rightarrow> recall_response \<Rightarrow> real \<Rightarrow> bench \<Rightarrow> bench" where
  "push_run ns k r result latency st =
     st\<lparr>rawRuns := rawRuns st @
          [\<lparr>namespace = ns, top_k = k, run = r + 1,
            avg_recall = res_avg_recall result,
            avg_ann_count = res_avg_ann_count result,
            avg_exhaustive_count = res_avg_exhaustive_count result,
            latency_ms = Math_round latency\<rparr>]\<rparr>"

text \<open>\<open>if (completed < totalCalls) await sleep(DELAY_MS)\<close>\<close>

definition inter_call_delay :: "nat \<Rightarrow> bench \<Rightarrow> bench" where
  "inter_call_delay totalCalls st =
     (if completed st < totalCalls then st\<lparr>sleeps := sleeps st @ [DELAY_MS]\<rparr> else st)"

text \<open>The loop \<open>for (let run = 0; run < runs; run++)\<close>, over the values of \<open>run\<close>.\<close>

fun run_loop ::
  "backend \<Rightarrow> string \<Rightarrow> nat \<Rightarrow> nat \<Rightarrow> nat \<Rightarrow> nat list \<Rightarrow> bench \<Rightarrow> js_error option \<times> bench" where
  "run_loop be ns num k totalCalls [] st = (None, st)"
| "run_loop be ns num k totalCalls (r # rs) st =
     (case recall_attempts be ns num k 0 (st\<lparr>completed := completed st + 1\<rparr>) of
        (Inl e, st1) \<Rightarrow> (Some e, st1)
      | (Inr (result, latency), st1) \<Rightarrow>
          run_loop be ns num k totalCalls rs
            (inter_call_delay totalCalls (push_run ns k r result latency st1)))"

text \<open>
  \<^verbatim>\<open>completedConfigs.add(key);
  await saveCheckpoint({ raw_runs: rawRuns, completedConfigs: [...completedConfigs] });\<close>
\<close>

definition mark_complete :: "string \<Rightarrow> bench \<Rightarrow> bench" where
  "mark_complete key st =
     (let st1 = st\<lparr>completedSet := set_add (completedSet st) key\<rparr>
      in st1\<lparr>saved := saved st1 @
               [\<lparr>raw_runs = rawRuns st1, completedConfigs = completedSet st1\<rparr>]\<rparr>)"

text \<open>The loop over \<open>topKValues\<close>, with the checkpoint written after each configuration.\<close>

fun topk_loop ::
  "backend \<Rightarrow> string \<Rightarrow> nat \<Rightarrow> nat \<Rightarrow> nat \<Rightarrow> nat list \<Rightarrow> bench \<Rightarrow> js_error option \<times> bench" where
  "topk_loop be ns num runs totalCalls [] st = (None, st)"
| "topk_loop be ns num runs totalCalls (k # ks) st =
     (let key = configKey ns k
      in if key \<in> set (completedSet st) then topk_loop be ns num runs totalCalls ks st
         else case run_loop be ns num k totalCalls [0..<runs] st of
                (Some e, st1) \<Rightarrow> (Some e, st1)
              | (None, st1) \<Rightarrow>
                  topk_loop be ns num runs totalCalls ks (mark_complete key st1))"

fun namespace_loop ::
  "backend \<Rightarrow> nat \<Rightarrow> nat \<Rightarrow> nat \<Rightarrow> nat list \<Rightarrow> string list \<Rightarrow> bench \<Rightarrow> js_error option \<times> bench" where
  "namespace_loop be num runs totalCalls topKValues [] st = (None, st)"
| "namespace_loop be num runs totalCalls topKValues (ns # nss) st =
     (case topk_loop be ns num runs totalCalls topKValues st of
        (Some e, st1) \<Rightarrow> (Some e, st1)
      | (None, st1) \<Rightarrow> namespace_loop be num runs totalCalls topKValues nss st1)"

text \<open>The two loops that compute the summaries; the first \<open>summarize\<close> that throws ends them.\<close>

fun summary_topk_loop ::
  "RecallRun list \<Rightarrow> string \<Rightarrow> nat list \<Rightarrow> ConfigSummary list \<Rightarrow> js_error + ConfigSummary list" where
  "summary_topk_loop rs ns [] summaries = Inr summaries"
| "summary_topk_loop rs ns (k # ks) summaries =
     (let configRuns = filter (\<lambda>r. namespace r = ns \<and> top_k r = k) rs
      in case summarize configRuns of
           Inl e \<Rightarrow> Inl e
         | Inr s \<Rightarrow> summary_topk_loop rs ns ks (summaries @ [s]))"

fun summary_loop ::
  "RecallRun list \<Rightarrow> nat list \<Rightarrow> string list \<Rightarrow> ConfigSummary list \<Rightarrow> js_error + ConfigSummary list" where
  "summary_loop rs topKValues [] summaries = Inr summaries"
| "summary_loop rs topKValues (ns # nss) summaries =
     (case summary_topk_loop rs ns topKValues summaries of
        Inl e \<Rightarrow> Inl e
      | Inr summaries' \<Rightarrow> summary_loop rs topKValues nss summaries')"

text \<open>\<open>BenchmarkResult\<close>; the timestamp of the metadata is the wall clock and is left out.\<close>

record BenchmarkResult =
  meta_num :: nat
  meta_runs_per_config :: nat
  meta_top_k_values :: "nat list"
  meta_namespaces :: "string list"
  meta_total_calls :: nat
  result_raw_runs :: "RecallRun list"
  summaries :: "ConfigSummary list"

text \<open>
  What one invocation of \<open>runRecallBenchmark\<close> leaves: the written result or the error
  thrown, the final values of its variables with the log of its calls, and whether
  \<open>removeCheckpoint\<close> was reached.
\<close>

record report =
  outcome :: "js_error + BenchmarkResult"
  final :: bench
  removed :: bool

definition runsOf :: "BenchmarkOptions \<Rightarrow> nat" where
  "runsOf options = (case opt_runs options of None \<Rightarrow> DEFAULT_RUNS | Some r \<Rightarrow> r)"

definition numOf :: "BenchmarkOptions \<Rightarrow> nat" where
  "numOf options = (case opt_num options of None \<Rightarrow> DEFAULT_NUM | Some n \<Rightarrow> n)"

definition topKValuesOf :: "BenchmarkOptions \<Rightarrow> nat list" where
  "topKValuesOf options = (case opt_topK options of None \<Rightarrow> DEFAULT_TOP_K_VALUES | Some ks \<Rightarrow> ks)"

definition namespacesOf :: "BenchmarkOptions \<Rightarrow> string list" where
  "namespacesOf options = (case opt_namespaces options of None \<Rightarrow> NAMESPACES | Some nss \<Rightarrow> nss)"

text \<open>
  \<open>runRecallBenchmark\<close>. Its third argument is the checkpoint that \<open>loadCheckpoint()\<close>
  returned at its start.
\<close>

definition runRecallBenchmark :: "BenchmarkOptions \<Rightarrow> backend \<Rightarrow> Checkpoint \<Rightarrow> report" where
  "runRecallBenchmark options be checkpoint =
     (let runs = runsOf options;
          num = numOf options;
          topKValues = topKValuesOf options;
          namespaces = namespacesOf options;
          totalConfigs = length namespaces * length topKValues;
          totalCalls = totalConfigs * runs;
          skippedConfigs = length (completedConfigs checkpoint);
          st0 = \<lparr>rawRuns = raw_runs checkpoint,
                 completedSet = new_Set (completedConfigs checkpoint),
                 completed = skippedConfigs * runs,
                 probe_calls = [], sleeps = [], saved = []\<rparr>
      in case namespace_loop be num runs totalCalls topKValues namespaces st0 of
           (Some e, st) \<Rightarrow> \<lparr>outcome = Inl e, final = st, removed = False\<rparr>
         | (None, st) \<Rightarrow>
             (case summary_loop (rawRuns st) topKValues namespaces [] of
                Inl e \<Rightarrow> \<lparr>outcome = Inl e, final = st, removed = False\<rparr>
              | Inr ss \<Rightarrow>
                  \<lparr>outcome = Inr \<lparr>meta_num = num, meta_runs_per_config = runs,
                                  meta_top_k_values = topKValues, meta_namespaces = namespaces,
                                  meta_total_calls = totalCalls,
                                  result_raw_runs = rawRuns st, summaries = ss\<rparr>,
                   final = st, removed = True\<rparr>))"

text \<open>
  A configuration whose key is in the completed set stays untouched by the measuring loops:
  no call is issued for it and the runs stored for it stay the same.
\<close>

definition untouched :: "string \<Rightarrow> nat \<Rightarrow> bench \<Rightarrow> bench \<Rightarrow> bool" where
  "untouched ns0 k0 st st' \<longleftrightarrow>
     configKey ns0 k0 \<in> set (completedSet st') \<and>
     ((ns0, k0) \<notin> set (probe_calls st) \<longrightarrow> (ns0, k0) \<notin> set (probe_calls st')) \<and>
     filter (\<lambda>r. namespace r = ns0 \<and> top_k r = k0) (rawRuns st')
       = filter (\<lambda>r. namespace r = ns0 \<and> top_k r = k0) (rawRuns st)"

text \<open>The backoff before retry number \<open>attempt\<close>, \<open>RETRY_BASE_MS * 2 ** (attempt - 1)\<close>.\<close>

definition backoff :: "nat \<Rightarrow> nat" where
  "backoff attempt = RETRY_BASE_MS * 2 ^ (attempt - 1)"

subsection \<open>Concrete environments and inputs\<close>

text \<open>
  Backends that always answer, that always reject with one status, and that reject twice
  with 503 before answering; a state with nothing recorded; a checkpoint holding one
  completed configuration, and option records of two invocations.
\<close>

definition sample_response :: recall_response where
  "sample_response = \<lparr>res_avg_recall = 0.95, res_avg_ann_count = 10, res_avg_exhaustive_count = 10\<rparr>"

definition steady :: backend where
  "steady c ns num k = Resolved sample_response 42"

definition always_status :: "nat \<Rightarrow> backend" where
  "always_status s c ns num k = Rejected (Some s)"

definition twice_503 :: backend where
  "twice_503 c ns num k = (if c < 2 then Rejected (Some 503) else Resolved sample_response 42)"

definition fresh :: bench where
  "fresh = \<lparr>rawRuns = [], completedSet = [], completed = 0, probe_calls = [], sleeps = [], saved = []\<rparr>"

definition empty_checkpoint :: Checkpoint where
  "empty_checkpoint = \<lparr>raw_runs = [], completedConfigs = []\<rparr>"

definition stored_run :: RecallRun where
  "stored_run = \<lparr>namespace = ''wiki-openai'', top_k = 5, run = 1, avg_recall = 0.9,
                  avg_ann_count = 10, avg_exhaustive_count = 10, latency_ms = 40\<rparr>"

definition stored_checkpoint :: Checkpoint where
  "stored_checkpoint = \<lparr>raw_runs = [stored_run], completedConfigs = [''wiki-openai:5'']\<rparr>"

definition resume_options :: BenchmarkOptions where
  "resume_options = \<lparr>opt_runs = Some 1, opt_num = None, opt_topK = Some [5, 10],
                      opt_namespaces = Some [''wiki-openai'']\<rparr>"

definition zero_runs_options :: BenchmarkOptions where
  "zero_runs_options = \<lparr>opt_runs = Some 0, opt_num = None, opt_topK = Some [5],
                      opt_namespaces = Some [''wiki-openai'']\<rparr>"

text \<open>Reading a decimal numeral back, to see that the keys of two configurations differ.\<close>

definition digit_val :: "char \<Rightarrow> nat" where
  "digit_val c = length (takeWhile (\<lambda>d. d \<noteq> c) ''0123456789'')"

definition digits_value :: "string \<Rightarrow> nat" where
  "digits_value ds = foldl (\<lambda>a c. 10 * a + digit_val c) 0 ds"

text \<open>
  Every configuration marked complete that belongs to the sweep has a run stored; \<open>S\<close> is
  the set of the configurations of the sweep.
\<close>

definition stored_for_completed :: "(string \<times> nat) set \<Rightarrow> bench \<Rightarrow> bool" where
  "stored_for_completed S st \<longleftrightarrow>
     (\<forall>ns k. (ns, k) \<in> S \<and> configKey ns k \<in> set (completedSet st)
        \<longrightarrow> filter (\<lambda>r. namespace r = ns \<and> top_k r = k) (rawRuns st) \<noteq> [])"

section \<open>The checkpoint store (recall-benchmark.ts)\<close>

text \<open>
  The values \<open>JSON.parse\<close> returns. Numbers are finite (JSON has no \<open>NaN\<close> and no
  infinity).
\<close>

datatype json =
  JNull | JBool bool | JNum real | JStr string | JArr "json list" | JObj "(string \<times> json) list"

text \<open>
  The file at \<open>CHECKPOINT_PATH\<close>: not there, there but not readable, or there with a
  text.
\<close>

datatype checkpoint_file = Absent | Unreadable | Content string

definition existsSync :: "checkpoint_file \<Rightarrow> bool" where
  "existsSync f = (f \<noteq> Absent)"

definition readFileSync :: "checkpoint_file \<Rightarrow> js_error + string" where
  "readFileSync f = (case f of Content s \<Rightarrow> Inr s | _ \<Rightarrow> Inl FsError)"

text \<open>
  A property read \<open>data.key\<close>: it throws on \<open>null\<close>, gives the field of an object, and is
  \<open>undefined\<close> (\<open>None\<close>) on an object without the field and on every other value (the two
  keys read here are no property of an array, a string, a number or a boolean).
\<close>

definition get_prop :: "json \<Rightarrow> string \<Rightarrow> js_error + json option" where
  "get_prop data key =
     (case data of
        JNull \<Rightarrow> Inl TypeError
      | JObj props \<Rightarrow> Inr (map_of props key)
      | _ \<Rightarrow> Inr None)"

text \<open>\<open>v ?? d\<close>\<close>

definition nullish_or :: "json option \<Rightarrow> json \<Rightarrow> json" where
  "nullish_or v d = (case v of None \<Rightarrow> d | Some JNull \<Rightarrow> d | Some x \<Rightarrow> x)"

text \<open>
  What \<open>loadCheckpoint\<close> returns, at run time: the two fields hold whatever the parsed
  document held, the interface \<open>Checkpoint\<close> is not checked.
\<close>

record loaded_checkpoint =
  loaded_raw_runs :: json
  loaded_completedConfigs :: json

definition empty_loaded :: loaded_checkpoint where
  "empty_loaded = \<lparr>loaded_raw_runs = JArr [], loaded_completedConfigs = JArr []\<rparr>"

text \<open>
  The body of the \<open>try\<close> block of \<open>loadCheckpoint\<close>. \<open>JSON.parse\<close> belongs to the runtime
  and is a parameter: \<open>None\<close> is its \<open>SyntaxError\<close>.
\<close>

definition loadCheckpoint_try :: "(string \<Rightarrow> json option) \<Rightarrow> checkpoint_file \<Rightarrow> js_error + loaded_checkpoint" where
  "loadCheckpoint_try parse f =
     (case readFileSync f of
        Inl e \<Rightarrow> Inl e
      | Inr s \<Rightarrow>
          (case parse s of
             None \<Rightarrow> Inl SyntaxError
           | Some data \<Rightarrow>
               (case get_prop data ''raw_runs'' of
                  Inl e \<Rightarrow> Inl e
                | Inr rr \<Rightarrow>
                    (case get_prop data ''completedConfigs'' of
                       Inl e \<Rightarrow> Inl e
                     | Inr cc \<Rightarrow>
                         Inr \<lparr>loaded_raw_runs = nullish_or rr (JArr []),
                              loaded_completedConfigs = nullish_or cc (JArr [])\<rparr>))))"

text \<open>
  \<^verbatim>\<open>if (existsSync(CHECKPOINT_PATH)) { try { ... return {...}; } catch { } }
  return { raw_runs: [], completedConfigs: [] };\<close>
\<close>

definition loadCheckpoint :: "(string \<Rightarrow> json option) \<Rightarrow> checkpoint_file \<Rightarrow> js_error + loaded_checkpoint" where
  "loadCheckpoint parse f =
     (if existsSync f
      then (case loadCheckpoint_try parse f of
              Inr c \<Rightarrow> Inr c
            | Inl e \<Rightarrow> Inr empty_loaded)
      else Inr empty_loaded)"

text \<open>The object a \<open>RecallRun\<close> and a \<open>Checkpoint\<close> are at run time.\<close>

definition json_of_run :: "RecallRun \<Rightarrow> json" where
  "json_of_run r =
     JObj [(''namespace'', JStr (namespace r)), (''top_k'', JNum (real (top_k r))),
           (''run'', JNum (real (run r))), (''avg_recall'', JNum (avg_recall r)),
           (''avg_ann_count'', JNum (avg_ann_count r)),
           (''avg_exhaustive_count'', JNum (avg_exhaustive_count r)),
           (''latency_ms'', JNum (latency_ms r))]"

definition json_of_checkpoint :: "Checkpoint \<Rightarrow> json" where
  "json_of_checkpoint c =
     JObj [(''raw_runs'', JArr (map json_of_run (raw_runs c))),
           (''completedConfigs'', JArr (map JStr (completedConfigs c)))]"

definition loaded_of_checkpoint :: "Checkpoint \<Rightarrow> loaded_checkpoint" where
  "loaded_of_checkpoint c =
     \<lparr>loaded_raw_runs = JArr (map json_of_run (raw_runs c)),
      loaded_completedConfigs = JArr (map JStr (completedConfigs c))\<rparr>"

text \<open>
  \<open>saveCheckpoint\<close> overwrites the file with \<open>JSON.stringify(checkpoint)\<close> (a parameter, as
  \<open>JSON.parse\<close>); \<open>removeCheckpoint\<close> unlinks it and ignores a failure.
\<close>

definition saveCheckpoint :: "(json \<Rightarrow> string) \<Rightarrow> Checkpoint \<Rightarrow> checkpoint_file \<Rightarrow> checkpoint_file" where
  "saveCheckpoint stringify checkpoint f = Content (stringify (json_of_checkpoint checkpoint))"

definition removeCheckpoint :: "checkpoint_file \<Rightarrow> checkpoint_file" where
  "removeCheckpoint f = Absent"

text \<open>A codec that knows one document, for a concrete run of the store.\<close>

definition stored_text :: string where
  "stored_text = ''{raw_runs:[...],completedConfigs:[wiki-openai:5]}''"

definition stored_stringify :: "json \<Rightarrow> string" where
  "stored_stringify v = (if v = json_of_checkpoint stored_checkpoint then stored_text else ''null'')"

definition stored_parse :: "string \<Rightarrow> json option" where
  "stored_parse s =
     (if s = stored_text then Some (json_of_checkpoint stored_checkpoint)
      else if s = ''null'' then Some JNull else None)"

section \<open>The concurrent query pool (throughput-benchmark.ts)\<close>

text \<open>
  The variables the workers share (\<open>completedCount\<close>, \<open>latencies\<close>, \<open>errors\<close>,
  \<open>activeCount\<close>), the queries awaiting their answer, each with the worker that awaits it,
  the log of every \<open>ns.query\<close> issued (worker and \<open>queryIndex\<close>), and the workers whose
  \<open>runQuery\<close> promise has resolved.
\<close>

record pool =
  completedCount :: nat
  latencies :: "real list"
  errors :: nat
  activeCount :: nat
  in_flight :: "(nat \<times> nat) list"
  issued :: "(nat \<times> nat) list"
  finished :: "nat list"

datatype query_outcome = QueryOk real | QueryFailed

text \<open>
  JavaScript runs a worker without interruption from one \<open>await\<close> to the next. From the
  head of the \<open>while\<close> loop a worker either claims the next index and issues its query, or
  leaves the loop and resolves:
  \<^verbatim>\<open>while (completedCount < options.totalQueries) {
    const queryIndex = completedCount++;
    if (queryIndex >= options.totalQueries) break;
    activeCount++;
    ... await ns.query(...)\<close>
\<close>

definition runQuery_head :: "nat \<Rightarrow> nat \<Rightarrow> pool \<Rightarrow> pool" where
  "runQuery_head totalQueries w s =
     (if completedCount s < totalQueries
      then (let queryIndex = completedCount s;
                s1 = s\<lparr>completedCount := completedCount s + 1\<rparr>
            in if queryIndex \<ge> totalQueries then s1\<lparr>finished := finished s1 @ [w]\<rparr>
               else s1\<lparr>activeCount := activeCount s1 + 1,
                       in_flight := in_flight s1 @ [(w, queryIndex)],
                       issued := issued s1 @ [(w, queryIndex)]\<rparr>)
      else s\<lparr>finished := finished s @ [w]\<rparr>)"

text \<open>
  When its query settles the worker records the outcome and goes back to the head of the loop:
  \<^verbatim>\<open>  latencies.push(queryEnd - queryStart);  } catch { errors++; }
    activeCount--;
  }\<close>
\<close>

definition runQuery_resume :: "nat \<Rightarrow> nat \<Rightarrow> query_outcome \<Rightarrow> pool \<Rightarrow> pool" where
  "runQuery_resume totalQueries w out s =
     (let s1 = (case out of
                  QueryOk latency \<Rightarrow> s\<lparr>latencies := latencies s @ [latency]\<rparr>
                | QueryFailed \<Rightarrow> s\<lparr>errors := errors s + 1\<rparr>);
          s2 = s1\<lparr>activeCount := activeCount s1 - 1\<rparr>
      in runQuery_head totalQueries w s2)"

definition pool_init :: pool where
  "pool_init = \<lparr>completedCount = 0, latencies = [], errors = 0, activeCount = 0,
                in_flight = [], issued = [], finished = []\<rparr>"

text \<open>
  \<open>Array(options.concurrency).fill(null).map(() => runQuery())\<close>: the workers start one
  after the other, each running up to its first \<open>await\<close>.
\<close>

definition start_workers :: "nat \<Rightarrow> nat \<Rightarrow> pool" where
  "start_workers totalQueries concurrency =
     foldl (\<lambda>s w. runQuery_head totalQueries w s) pool_init [0..<concurrency]"

definition remove_nth :: "nat \<Rightarrow> 'a list \<Rightarrow> 'a list" where
  "remove_nth j xs = take j xs @ drop (Suc j) xs"

text \<open>
  \<open>await Promise.all(workers)\<close>: the queries in flight settle one at a time, in an order
  and with outcomes the program does not control. \<open>pick t\<close> chooses which of the queries in
  flight settles at step \<open>t\<close>, \<open>answer q\<close> is the outcome of query \<open>q\<close>. The pool resolves
  when no query is in flight.
\<close>

function drain :: "nat \<Rightarrow> (nat \<Rightarrow> nat) \<Rightarrow> (nat \<Rightarrow> query_outcome) \<Rightarrow> nat \<Rightarrow> pool \<Rightarrow> pool" where
  "drain totalQueries pick answer t s =
     (if in_flight s = [] then s
      else (let j = pick t mod length (in_flight s);
                w = fst (in_flight s ! j);
                q = snd (in_flight s ! j);
                s1 = s\<lparr>in_flight := remove_nth j (in_flight s)\<rparr>
            in drain totalQueries pick answer (t + 1)
                 (runQuery_resume totalQueries w (answer q) s1)))"
  by pat_completeness auto

termination
proof (relation "measure (\<lambda>(totalQueries, pick, answer, t, s).
                   (totalQueries - completedCount s) + length (in_flight s))")
  show "wf (measure (\<lambda>(totalQueries, pick, answer, t, s).
                   (totalQueries - completedCount s) + length (in_flight s)))"
    by simp
next
  fix totalQueries :: nat and pick :: "nat \<Rightarrow> nat" and answer :: "nat \<Rightarrow> query_outcome"
    and t :: nat and s :: pool and j w q s1
  assume ne: "in_flight s \<noteq> []"
    and j: "j = pick t mod length (in_flight s)"
    and "w = fst (in_flight s ! j)" and "q = snd (in_flight s ! j)"
    and s1: "s1 = s\<lparr>in_flight := remove_nth j (in_flight s)\<rparr>"
  from ne j have "j < length (in_flight s)" by simp
  then have len: "length (remove_nth j (in_flight s)) + 1 = length (in_flight s)"
    by (simp add: remove_nth_def)
  have "(totalQueries - completedCount (runQuery_resume totalQueries w (answer q) s1))
          + length (in_flight (runQuery_resume totalQueries w (answer q) s1))
        < (totalQueries - completedCount s) + length (in_flight s)"
    using len
    by (cases "answer q") (auto simp: runQuery_resume_def runQuery_head_def s1 Let_def)
  then show "((totalQueries, pick, answer, t + 1, runQuery_resume totalQueries w (answer q) s1),
              (totalQueries, pick, answer, t, s))
             \<in> measure (\<lambda>(totalQueries, pick, answer, t, s).
                   (totalQueries - completedCount s) + length (in_flight s))"
    by simp
qed

declare drain.simps [simp del]

definition run_pool :: "nat \<Rightarrow> nat \<Rightarrow> (nat \<Rightarrow> nat) \<Rightarrow> (nat \<Rightarrow> query_outcome) \<Rightarrow> pool" where
  "run_pool totalQueries concurrency pick answer =
     drain totalQueries pick answer 0 (start_workers totalQueries concurrency)"

text \<open>A schedule and outcomes for a concrete run: the oldest query settles first, every third fails.\<close>

definition oldest_first :: "nat \<Rightarrow> nat" where
  "oldest_first t = 0"

definition every_third_fails :: "nat \<Rightarrow> query_outcome" where
  "every_third_fails q = (if q mod 3 = 2 then QueryFailed else QueryOk 12)"

text \<open>
  What holds of the shared variables between any two steps of the workers, \<open>m\<close> being the
  number of workers started: the issued queries are the indices below \<open>completedCount\<close>, in
  order; each is recorded as a latency, recorded as an error, or in flight; every worker
  is awaiting a query or has resolved, and a worker resolves only when no index is left.
\<close>

definition pool_inv :: "nat \<Rightarrow> nat \<Rightarrow> pool \<Rightarrow> bool" where
  "pool_inv totalQueries m s \<longleftrightarrow>
     completedCount s \<le> totalQueries \<and>
     map snd (issued s) = [0..<completedCount s] \<and>
     length (latencies s) + errors s + length (in_flight s) = completedCount s \<and>
     activeCount s = length (in_flight s) \<and>
     length (finished s) + length (in_flight s) = m \<and>
     (finished s \<noteq> [] \<longrightarrow> completedCount s = totalQueries)"

section \<open>The upsert benchmark (upsert-benchmark.ts)\<close>

definition DEFAULT_TOTAL_RECORDS :: nat where "DEFAULT_TOTAL_RECORDS = 10000"

definition DEFAULT_BATCH_SIZE :: nat where "DEFAULT_BATCH_SIZE = 256"

text \<open>\<open>WikiRecord\<close> of parse.ts, with the fields \<open>id\<close> and \<open>text\<close> renamed.\<close>

record WikiRecord =
  record_id :: string
  title :: string
  body_text :: string
  vector :: "jsnum list"

text \<open>\<open>mean\<close> of the upsert and throughput benchmarks, with its guard for the empty array.\<close>

definition mean_guarded :: "real list \<Rightarrow> real" where
  "mean_guarded arr = (if length arr = 0 then 0 else foldl (+) 0 arr / real (length arr))"

definition DIMENSION_MAP :: "string \<Rightarrow> nat option" where
  "DIMENSION_MAP =
     [''wiki-openai'' \<mapsto> 1536, ''wiki-minilm'' \<mapsto> 384, ''wiki-gte'' \<mapsto> 384,
      ''wiki-3-small'' \<mapsto> 512, ''wiki-3-large'' \<mapsto> 1024]"

text \<open>
  What the benchmark reads from outside: the successive values of \<open>Math.random()\<close>, the
  value of \<open>Date.now()\<close> while record \<open>i\<close> is built, the successive values of
  \<open>performance.now()\<close>, and whether \<open>ensureNamespace\<close> and the successive \<open>ns.upsert\<close>
  calls reject (\<open>None\<close>: the call resolves).
\<close>

record upsert_env =
  random :: "nat \<Rightarrow> real"
  date_now :: "nat \<Rightarrow> nat"
  performance_now :: "nat \<Rightarrow> real"
  ensure_result :: "js_error option"
  upsert_result :: "nat \<Rightarrow> js_error option"

text \<open>
  \<open>new Array(dimensions)\<close> has \<open>dimensions\<close> slots; for a namespace outside the map
  \<open>dimensions\<close> is \<open>undefined\<close> and the array has the one slot \<open>undefined\<close>.
\<close>

definition array_length :: "nat option \<Rightarrow> nat" where
  "array_length dimensions = (case dimensions of None \<Rightarrow> 1 | Some d \<Rightarrow> d)"

text \<open>
  \<^verbatim>\<open>const vector = new Array(dimensions).fill(0).map(() => Math.random() * 2 - 1);
  const norm = Math.sqrt(vector.reduce((sum, v) => sum + v * v, 0));
  const normalizedVector = vector.map(v => v / norm);\<close>
\<close>

definition synthetic_vector :: "upsert_env \<Rightarrow> nat \<Rightarrow> nat \<Rightarrow> jsnum list" where
  "synthetic_vector env len i =
     (let vector = map (\<lambda>j. random env (i * len + j) * 2 - 1) [0..<len];
          norm = js_sqrt (Num (foldl (\<lambda>sum v. sum + v * v) 0 vector))
      in map (\<lambda>v. js_div (Num v) norm) vector)"

definition generateSyntheticRecords :: "upsert_env \<Rightarrow> string \<Rightarrow> nat \<Rightarrow> WikiRecord list" where
  "generateSyntheticRecords env ns count =
     (let dimensions = DIMENSION_MAP ns
      in map (\<lambda>i.
           \<lparr>record_id = ''benchmark-'' @ string_of_nat (date_now env i) @ ''-'' @ string_of_nat i,
            title = ''Benchmark Document '' @ string_of_nat i,
            body_text = ''This is synthetic benchmark document number '' @ string_of_nat i @
              ''. It contains some text for testing upsert performance. The content is meaningless but ensures we're testing realistic document sizes with typical metadata. Lorem ipsum dolor sit amet, consectetur adipiscing elit.'',
            vector = synthetic_vector env (array_length dimensions) i\<rparr>)
         [0..<count])"

text \<open>
  What the batch loop has done: the \<open>ns.upsert\<close> calls, each with its batch and its
  \<open>isFirstBatch\<close> flag, in the order they were made; the latencies pushed; and the number of
  reads of the clock.
\<close>

record upsert_state =
  upsert_calls :: "(WikiRecord list \<times> bool) list"
  batchLatencies :: "real list"
  clock_reads :: nat

text \<open>
  \<^verbatim>\<open>for (let i = 0; i < records.length; i += batchSize) {
    const batch = records.slice(i, i + batchSize);
    const batchStart = performance.now();
    await ns.upsert(batch, { isFirstBatch: i === 0 });
    const batchEnd = performance.now();
    batchLatencies.push(batchEnd - batchStart);
  }\<close>
  Each call is awaited before the loop goes on; a rejected call ends the run. With
  \<open>batchSize = 0\<close> the index never moves and the loop does not end, so the loop is a
  partial function: \<open>None\<close> is the run that never returns.
\<close>

partial_function (option) upsert_loop ::
  "upsert_env \<Rightarrow> nat \<Rightarrow> WikiRecord list \<Rightarrow> nat \<Rightarrow> upsert_state \<Rightarrow> (js_error option \<times> upsert_state) option" where
  "upsert_loop env batchSize records i st =
     (if i < length records
      then (let batch = take batchSize (drop i records);
                batchStart = performance_now env (clock_reads st);
                st1 = st\<lparr>upsert_calls := upsert_calls st @ [(batch, i = 0)],
                        clock_reads := clock_reads st + 1\<rparr>
            in case upsert_result env (length (upsert_calls st)) of
                 Some e \<Rightarrow> Some (Some e, st1)
               | None \<Rightarrow>
                   (let batchEnd = performance_now env (clock_reads st1);
                        st2 = st1\<lparr>batchLatencies := batchLatencies st1 @ [batchEnd - batchStart],
                                  clock_reads := clock_reads st1 + 1\<rparr>
                    in upsert_loop env batchSize records (i + batchSize) st2))
      else Some (None, st))"

text \<open>\<open>UpsertResult\<close>, without the name of the backend.\<close>

record UpsertResult =
  result_namespace :: string
  dimensions :: "nat option"
  total_records :: nat
  batch_size :: nat
  num_batches :: jsnum
  duration_seconds :: real
  records_per_second :: jsnum
  batch_latencies_ms :: "real list"
  avg_batch_latency_ms :: real
  p95_batch_latency_ms :: "real option"

text \<open>
  \<open>runUpsertBenchmark\<close>, up to the result it returns (the file it writes afterwards holds
  the same numbers, rounded). The number of batches it reports is
  \<^verbatim>\<open>Math.ceil(records.length / batchSize)\<close>, a division of doubles; the loop counts for itself.
  Before it returns it prints the result:
  \<^verbatim>\<open>console.log(`  P95 batch latency: ${result.p95_batch_latency_ms.toFixed(0)}ms`);\<close>
  When no batch was sent the percentile is \<open>undefined\<close> and the call of \<open>toFixed\<close> throws
  a \<open>TypeError\<close>; the other numbers printed are numbers whatever the run did.
\<close>

definition runUpsertBenchmark ::
  "upsert_env \<Rightarrow> string \<Rightarrow> nat option \<Rightarrow> nat option \<Rightarrow> ((js_error + UpsertResult) \<times> upsert_state) option" where
  "runUpsertBenchmark env ns opt_totalRecords opt_batchSize =
     (let totalRecords = (case opt_totalRecords of None \<Rightarrow> DEFAULT_TOTAL_RECORDS | Some r \<Rightarrow> r);
          batchSize = (case opt_batchSize of None \<Rightarrow> DEFAULT_BATCH_SIZE | Some b \<Rightarrow> b);
          records = generateSyntheticRecords env ns totalRecords;
          st0 = \<lparr>upsert_calls = [], batchLatencies = [], clock_reads = 0\<rparr>
      in case ensure_result env of
           Some e \<Rightarrow> Some (Inl e, st0)
         | None \<Rightarrow>
             (let numBatches = js_ceil (dbl_div (Num (real (length records))) (Num (real batchSize)));
                  startTime = performance_now env 0
              in case upsert_loop env batchSize records 0 (st0\<lparr>clock_reads := 1\<rparr>) of
                   None \<Rightarrow> None
                 | Some (Some e, st) \<Rightarrow> Some (Inl e, st)
                 | Some (None, st) \<Rightarrow>
                     (let endTime = performance_now env (clock_reads st);
                          durationSeconds = (endTime - startTime) / 1000;
                          result = \<lparr>result_namespace = ns,
                                    dimensions = DIMENSION_MAP ns,
                                    total_records = totalRecords,
                                    batch_size = batchSize,
                                    num_batches = numBatches,
                                    duration_seconds = durationSeconds,
                                    records_per_second =
                                      js_div (Num (real totalRecords)) (Num durationSeconds),
                                    batch_latencies_ms = batchLatencies st,
                                    avg_batch_latency_ms = mean_guarded (batchLatencies st),
                                    p95_batch_latency_ms = percentile (batchLatencies st) 95\<rparr>;
                          st' = st\<lparr>clock_reads := clock_reads st + 1\<rparr>
                      in case p95_batch_latency_ms result of
                           None \<Rightarrow> Some (Inl TypeError, st')
                         | Some v \<Rightarrow> Some (Inr result, st'))))"

text \<open>An environment for a concrete run: a steady clock, a backend that accepts every call.\<close>

definition calm_env :: upsert_env where
  "calm_env = \<lparr>random = (\<lambda>n. 3 / 4), date_now = (\<lambda>i. 1700000000000),
               performance_now = (\<lambda>n. 10 * real n), ensure_result = None,
               upsert_result = (\<lambda>c. None)\<rparr>"

section \<open>Facts about the statistics\<close>

lemma foldl_add_sum_list: "foldl (+) a xs = a + sum_list (xs :: real list)"
  by (induction xs arbitrary: a) simp_all

lemma mean_nonempty: "xs \<noteq> [] \<Longrightarrow> mean xs = Num (mean_spec xs)"
  by (simp add: mean_def mean_spec_def foldl_add_sum_list)

lemma foldl_sq_dev:
  "foldl (\<lambda>sum v. js_add sum (js_sq (js_sub (Num v) (Num m)))) (Num a) xs
     = Num (a + (\<Sum>x\<leftarrow>xs. (x - m)\<^sup>2))"
  by (induction xs arbitrary: a) (simp_all add: js_sq_def js_sub_def power2_eq_square)

lemma sum_sq_nonneg: "0 \<le> (\<Sum>x\<leftarrow>xs. (x - (m::real))\<^sup>2)"
  by (induction xs) simp_all

lemma std_two_or_more:
  assumes "2 \<le> length xs"
  shows "std xs = Num (sample_std_spec xs)"
proof -
  from assms have ne: "xs \<noteq> []" by auto
  from assms have pos: "0 < real (length xs) - 1" by simp
  have "0 \<le> (\<Sum>x\<leftarrow>xs. (x - mean_spec xs)\<^sup>2) / (real (length xs) - 1)"
    using sum_sq_nonneg pos by (simp add: divide_nonneg_pos)
  with pos show ?thesis
    by (simp add: std_def mean_nonempty [OF ne] foldl_sq_dev sample_std_spec_def Let_def)
qed

lemma std_singleton: "std [x] = NaN"
  by (simp add: std_def mean_def js_sq_def js_sub_def)

lemma std_empty: "std [] = Num 0"
  by (simp add: std_def mean_def)

lemma sorted_hd_Min: "sorted xs \<Longrightarrow> xs \<noteq> [] \<Longrightarrow> hd xs = Min (set (xs::real list))"
  by (cases xs) (auto intro!: Min_eqI [symmetric])

lemma sorted_last_ge: "sorted xs \<Longrightarrow> y \<in> set xs \<Longrightarrow> y \<le> last (xs::real list)"
  by (induction xs) auto

lemma sorted_last_Max: "sorted xs \<Longrightarrow> xs \<noteq> [] \<Longrightarrow> last xs = Max (set (xs::real list))"
  by (auto intro!: Max_eqI [symmetric] sorted_last_ge)

section \<open>Facts about rounding to a double\<close>

lemma rte_bounds: "\<lfloor>r\<rfloor> \<le> round_ties_even r \<and> round_ties_even r \<le> \<lfloor>r\<rfloor> + 1"
  by (simp add: round_ties_even_def Let_def)

lemma rte_of_int [simp]: "round_ties_even (of_int k) = k"
  by (simp add: round_ties_even_def)

lemma rte_mono: "r \<le> s \<Longrightarrow> round_ties_even r \<le> round_ties_even s"
proof -
  assume rs: "r \<le> s"
  then have fl: "\<lfloor>r\<rfloor> \<le> \<lfloor>s\<rfloor>" by (rule floor_mono)
  show ?thesis
  proof (cases "\<lfloor>r\<rfloor> = \<lfloor>s\<rfloor>")
    case True
    with rs have "r - of_int \<lfloor>r\<rfloor> \<le> s - of_int \<lfloor>s\<rfloor>" by simp
    with True show ?thesis
      by (auto simp: round_ties_even_def Let_def)
  next
    case False
    with fl have "\<lfloor>r\<rfloor> + 1 \<le> \<lfloor>s\<rfloor>" by simp
    with rte_bounds [of r] rte_bounds [of s] show ?thesis by linarith
  qed
qed

lemma rte_le: "r \<le> of_int k \<Longrightarrow> round_ties_even r \<le> k"
  using rte_mono [of r "of_int k"] by simp

lemma rte_ge: "of_int k \<le> r \<Longrightarrow> k \<le> round_ties_even r"
  using rte_mono [of "of_int k" r] by simp

lemma ulp_pos [simp]: "0 < ulp x"
  by (simp add: ulp_def)

lemma ulp_nonneg [simp]: "0 \<le> ulp x"
  by (simp add: ulp_def)

lemma double_exponent_abs [simp]: "double_exponent (- x) = double_exponent x"
  by (simp add: double_exponent_def)

lemma ulp_minus [simp]: "ulp (- x) = ulp x"
  by (simp add: ulp_def)

lemma nearest_double_minus: "nearest_double (- x) = - nearest_double x"
  by (simp add: nearest_double_def sgn_minus)

lemma nearest_double_0 [simp]: "nearest_double 0 = 0"
  by (simp add: nearest_double_def)

lemma nearest_double_nonneg: "0 \<le> x \<Longrightarrow> 0 \<le> nearest_double x"
proof -
  assume x: "0 \<le> x"
  have "(of_int 0 :: real) \<le> \<bar>x\<bar> / ulp x"
    using ulp_pos [of x] by (simp add: less_imp_le)
  then have "0 \<le> round_ties_even (\<bar>x\<bar> / ulp x)" by (rule rte_ge)
  then have "0 \<le> real_of_int (round_ties_even (\<bar>x\<bar> / ulp x)) * ulp x"
    using ulp_pos [of x] by (intro mult_nonneg_nonneg) simp_all
  moreover from x have "0 \<le> sgn x" by simp
  ultimately show ?thesis
    unfolding nearest_double_def by (rule mult_nonneg_nonneg [rotated])
qed

lemma powr_powi: "(2::real) powr real_of_int k = 2 powi k"
  by (simp add: powr_real_of_int')

lemma double_exponent_upper:
  assumes "x \<noteq> 0"
  shows "\<bar>x\<bar> < 2 powi (double_exponent x + 1)"
proof -
  let ?e = "\<lfloor>log 2 \<bar>x\<bar>\<rfloor>"
  from assms have pos: "0 < \<bar>x\<bar>" by simp
  have "2 powr ?e \<le> \<bar>x\<bar> \<and> \<bar>x\<bar> < 2 powr (?e + 1)"
    using floor_log_eq_powr_iff [of "\<bar>x\<bar>" 2 ?e] pos by simp
  then have "\<bar>x\<bar> < 2 powr (real_of_int (?e + 1))"
    by simp
  then have "\<bar>x\<bar> < 2 powi (?e + 1)"
    by (simp only: powr_powi)
  also have "(2::real) powi (?e + 1) \<le> 2 powi (double_exponent x + 1)"
    using assms by (intro power_int_increasing) (simp_all add: double_exponent_def)
  finally show ?thesis .
qed

lemma double_exponent_lower:
  assumes "x \<noteq> 0" and "- 1022 < double_exponent x"
  shows "2 powi (double_exponent x) \<le> \<bar>x\<bar>"
proof -
  let ?e = "\<lfloor>log 2 \<bar>x\<bar>\<rfloor>"
  from assms have pos: "0 < \<bar>x\<bar>" by simp
  from assms have e: "double_exponent x = ?e" by (simp add: double_exponent_def max_def split: if_splits)
  have "2 powr ?e \<le> \<bar>x\<bar> \<and> \<bar>x\<bar> < 2 powr (?e + 1)"
    using floor_log_eq_powr_iff [of "\<bar>x\<bar>" 2 ?e] pos by simp
  then show ?thesis
    by (simp add: e powr_real_of_int')
qed

lemma double_exponent_ge: "- 1022 \<le> double_exponent x"
  by (simp add: double_exponent_def)

lemma double_exponent_mono:
  assumes "0 < x" and "x \<le> y"
  shows "double_exponent x \<le> double_exponent y"
proof -
  from assms have "log 2 x \<le> log 2 y" by simp
  then have "\<lfloor>log 2 x\<rfloor> \<le> \<lfloor>log 2 y\<rfloor>" by (rule floor_mono)
  then have "max \<lfloor>log 2 x\<rfloor> (- 1022) \<le> max \<lfloor>log 2 y\<rfloor> (- 1022)"
    by (intro max.mono) simp_all
  moreover from assms have "double_exponent x = max \<lfloor>log 2 x\<rfloor> (- 1022)"
    "double_exponent y = max \<lfloor>log 2 y\<rfloor> (- 1022)"
    by (simp_all add: double_exponent_def)
  ultimately show ?thesis by simp
qed


lemma nearest_double_mono_pos:
  assumes "0 < x" and "x \<le> y"
  shows "nearest_double x \<le> nearest_double y"
proof -
  from assms have y: "0 < y" by simp
  have nx: "nearest_double x = of_int (round_ties_even (x / ulp x)) * ulp x"
    using assms(1) by (simp add: nearest_double_def)
  have ny: "nearest_double y = of_int (round_ties_even (y / ulp y)) * ulp y"
    using y by (simp add: nearest_double_def)
  have le: "double_exponent x \<le> double_exponent y"
    by (rule double_exponent_mono [OF assms])
  show ?thesis
  proof (cases "double_exponent x = double_exponent y")
    case True
    then have u: "ulp x = ulp y" by (simp add: ulp_def)
    have "x / ulp y \<le> y / ulp y"
      using assms(2) ulp_pos [of y] by (simp add: divide_right_mono less_imp_le)
    then have "round_ties_even (x / ulp y) \<le> round_ties_even (y / ulp y)" by (rule rte_mono)
    then have "real_of_int (round_ties_even (x / ulp y)) * ulp y
                 \<le> real_of_int (round_ties_even (y / ulp y)) * ulp y"
      using ulp_pos [of y] by (simp add: mult_right_mono less_imp_le)
    then show ?thesis by (simp add: nx ny u)
  next
    case False
    with le have lt: "double_exponent x + 1 \<le> double_exponent y" by simp
    then have big: "- 1022 < double_exponent y"
      using double_exponent_ge [of x] by linarith
    \<comment> \<open>the rounded \<open>x\<close> stays below the next power of two\<close>
    have "x < 2 powi (double_exponent x + 1)"
      using double_exponent_upper [of x] assms(1) by simp
    then have "x / ulp x < 2 powi (double_exponent x + 1) / ulp x"
      using ulp_pos [of x] by (simp add: divide_strict_right_mono)
    also have "2 powi (double_exponent x + 1) / ulp x = (2::real) powi 53"
      by (simp add: ulp_def power_int_diff [symmetric])
    finally have "x / ulp x \<le> of_int (2 ^ 53)" by (simp add: less_imp_le)
    then have "round_ties_even (x / ulp x) \<le> 2 ^ 53" by (rule rte_le)
    then have "real_of_int (round_ties_even (x / ulp x)) \<le> 2 ^ 53"
      by (metis of_int_le_iff of_int_numeral of_int_power)
    then have "nearest_double x \<le> 2 ^ 53 * ulp x"
      using ulp_pos [of x] by (simp add: nx mult_right_mono less_imp_le)
    also have "2 ^ 53 * ulp x = (2::real) powi (double_exponent x + 1)"
      by (simp add: ulp_def power_int_diff power_int_add)
    also have "\<dots> \<le> 2 powi (double_exponent y)"
      using lt by (intro power_int_increasing) simp_all
    \<comment> \<open>and the rounded \<open>y\<close> stays above the power of two below it\<close>
    also have "2 powi (double_exponent y) \<le> nearest_double y"
    proof -
      have "2 powi (double_exponent y) \<le> y"
        using double_exponent_lower [of y] y big by simp
      then have "2 powi (double_exponent y) / ulp y \<le> y / ulp y"
        using ulp_pos [of y] by (simp add: divide_right_mono less_imp_le)
      moreover have "2 powi (double_exponent y) / ulp y = (2::real) powi 52"
        by (simp add: ulp_def power_int_diff [symmetric])
      ultimately have "of_int (2 ^ 52) \<le> y / ulp y" by simp
      then have "2 ^ 52 \<le> round_ties_even (y / ulp y)" by (rule rte_ge)
      then have "2 ^ 52 \<le> real_of_int (round_ties_even (y / ulp y))"
        by (metis of_int_le_iff of_int_numeral of_int_power)
      then have "2 ^ 52 * ulp y \<le> nearest_double y"
        using ulp_pos [of y] by (simp add: ny mult_right_mono less_imp_le)
      moreover have "2 ^ 52 * ulp y = (2::real) powi (double_exponent y)"
        by (simp add: ulp_def power_int_diff power_int_add)
      ultimately show ?thesis by simp
    qed
    finally show ?thesis .
  qed
qed

lemma nearest_double_mono: "x \<le> y \<Longrightarrow> nearest_double x \<le> nearest_double y"
proof -
  assume xy: "x \<le> y"
  consider "0 < x" | "x \<le> 0" "0 \<le> y" | "y < 0" by linarith
  then show ?thesis
  proof cases
    case 1
    then show ?thesis using xy by (rule nearest_double_mono_pos)
  next
    case 2
    have "nearest_double x \<le> 0"
      using nearest_double_nonneg [of "- x"] 2(1) by (simp add: nearest_double_minus)
    also have "0 \<le> nearest_double y" using 2(2) by (rule nearest_double_nonneg)
    finally show ?thesis .
  next
    case 3
    then have "0 < - y" "- y \<le> - x" using xy by simp_all
    then have "nearest_double (- y) \<le> nearest_double (- x)" by (rule nearest_double_mono_pos)
    then show ?thesis by (simp add: nearest_double_minus)
  qed
qed


lemma double_exponent_binade:
  assumes "2 powi e \<le> \<bar>x\<bar>" and "\<bar>x\<bar> < 2 powi (e + 1)" and "- 1022 \<le> e"
  shows "double_exponent x = e"
proof -
  have "(0::real) < 2 powi e" by simp
  with assms(1) have pos: "0 < \<bar>x\<bar>" by linarith
  have "2 powr (real_of_int e) \<le> \<bar>x\<bar> \<and> \<bar>x\<bar> < 2 powr (real_of_int (e + 1))"
    using assms(1,2) by (simp only: powr_powi)
  then have "\<lfloor>log 2 \<bar>x\<bar>\<rfloor> = e"
    using floor_log_eq_powr_iff [of "\<bar>x\<bar>" 2 e] pos by simp
  with pos assms(3) show ?thesis by (simp add: double_exponent_def)
qed

lemma nearest_double_binade:
  assumes "2 powi e \<le> \<bar>x\<bar>" and "\<bar>x\<bar> < 2 powi (e + 1)" and "- 1022 \<le> e"
  shows "nearest_double x
           = sgn x * (of_int (round_ties_even (\<bar>x\<bar> / 2 powi (e - 52))) * 2 powi (e - 52))"
  by (simp add: nearest_double_def ulp_def double_exponent_binade [OF assms])

lemma nearest_double_nat_exact:
  assumes "0 < k" and "k < 2 ^ 53"
  shows "nearest_double (of_int k) = of_int k"
proof -
  let ?x = "real_of_int k"
  let ?e = "double_exponent ?x"
  from assms(1) have x: "0 < ?x" by simp
  have e: "?e \<le> 52"
  proof (rule ccontr)
    assume "\<not> ?e \<le> 52"
    then have big: "53 \<le> ?e" by simp
    then have "(2::real) powi 53 \<le> 2 powi ?e" by (intro power_int_increasing) simp_all
    also have "\<dots> \<le> ?x" using double_exponent_lower [of ?x] x big by simp
    finally have "(2::real) ^ 53 \<le> ?x" by simp
    then have "(2::int) ^ 53 \<le> k" by (metis of_int_le_iff of_int_numeral of_int_power)
    with assms(2) show False by simp
  qed
  define m where "m = nat (52 - ?e)"
  from e have m: "52 - ?e = int m" by (simp add: m_def)
  have u: "ulp ?x = 1 / 2 ^ m"
  proof -
    from m have "?e - 52 = - int m" by linarith
    then have "ulp ?x = 2 powi (- int m)" by (simp only: ulp_def)
    then show ?thesis by (simp add: power_int_minus field_simps)
  qed
  have "?x / ulp ?x = of_int (k * 2 ^ m)" by (simp add: u)
  then have "round_ties_even (?x / ulp ?x) = k * 2 ^ m" by (simp only: rte_of_int)
  then show ?thesis
    using x by (simp add: nearest_double_def u)
qed

lemma nearest_double_int_exact:
  assumes "\<bar>k\<bar> < 2 ^ 53"
  shows "nearest_double (of_int k) = of_int k"
proof -
  consider "k = 0" | "0 < k" | "k < 0" by linarith
  then show ?thesis
  proof cases
    case 1
    then show ?thesis by simp
  next
    case 2
    with assms show ?thesis by (intro nearest_double_nat_exact) simp_all
  next
    case 3
    with assms have "nearest_double (of_int (- k)) = of_int (- k)"
      by (intro nearest_double_nat_exact) simp_all
    then show ?thesis using nearest_double_minus [of "of_int k"] by simp
  qed
qed

lemma pow2_56: "(2::real) powi (- 56) = 1 / 72057594037927936"
  by (simp add: power_int_minus field_simps)

lemma example_7_percent: "nearest_double (7 / 100) = 5044031582654956 / 72057594037927936"
proof -
  have "nearest_double (7 / 100)
      = sgn (7 / 100 :: real) * (of_int (round_ties_even (\<bar>7 / 100\<bar> / 2 powi (- 4 - 52))) * 2 powi (- 4 - 52))"
    by (rule nearest_double_binade) (simp_all add: power_int_minus)
  also have "\<dots> = 5044031582654956 / 72057594037927936"
    by (simp add: pow2_56 round_ties_even_def Let_def)
  finally show ?thesis .
qed

subsection \<open>The index of the percentile\<close>

lemma nearest_double_nat [simp]: "n < 2 ^ 53 \<Longrightarrow> nearest_double (real n) = real n"
proof -
  assume "n < 2 ^ 53"
  then have "\<bar>int n\<bar> < 2 ^ 53" by (metis abs_of_nat of_nat_less_iff of_nat_numeral of_nat_power)
  from nearest_double_int_exact [OF this] show ?thesis by simp
qed

lemma nearest_double_1 [simp]: "nearest_double 1 = 1"
  using nearest_double_int_exact [of 1] by simp

lemma two_53_below: "(2::real) ^ 53 < 2 ^ 1024"
  by (rule power_strict_increasing) simp_all

lemma real_nat_below:
  assumes "n < (2::nat) ^ 53" shows "real n < 2 ^ 1024"
proof -
  from assms have "real n < real ((2::nat) ^ 53)" by (simp only: of_nat_less_iff)
  then have "real n < 2 ^ 53" by simp
  with two_53_below show ?thesis by linarith
qed

lemma to_double_Num:
  "to_double (Num x) =
     (if 2 ^ 1024 \<le> nearest_double x then PosInf
      else if nearest_double x \<le> - (2 ^ 1024) then NegInf else Num (nearest_double x))"
  by (simp add: Let_def)

lemma index_after_NegInf:
  "Math_max (Num 0) (dbl_sub NegInf (Num 1)) = Num 0"
  by (simp add: dbl_sub_def js_sub_def)

lemma index_after_ceiling:
  assumes "c \<le> 2 ^ 53"
  shows "Math_max (Num 0) (dbl_sub (Num (of_int c)) (Num 1)) = Num (real (nat (max 0 (c - 1))))"
proof (cases "0 < c - 1")
  case True
  with assms have "\<bar>c - 1\<bar> < 2 ^ 53" by simp
  then have ex: "nearest_double (of_int (c - 1)) = of_int (c - 1)"
    by (rule nearest_double_int_exact)
  have "real_of_int (c - 1) < 2 ^ 53"
    using assms by (metis True \<open>\<bar>c - 1\<bar> < 2 ^ 53\<close> abs_of_pos of_int_less_iff of_int_numeral of_int_power)
  then have up: "real_of_int (c - 1) < 2 ^ 1024" using two_53_below by linarith
  have lo: "- (2 ^ 1024) < real_of_int (c - 1)"
    using True by (smt (verit) of_int_0_less_iff zero_less_power)
  have "dbl_sub (Num (of_int c)) (Num 1) = to_double (Num (of_int (c - 1)))"
    by (simp add: dbl_sub_def js_sub_def)
  also have "\<dots> = Num (of_int (c - 1))"
    using up lo by (simp only: to_double_Num ex) simp
  finally show ?thesis using True by (simp add: max_def)
next
  case False
  then have "real_of_int (c - 1) \<le> 0" by simp
  then have d: "nearest_double (of_int (c - 1)) \<le> 0"
    using nearest_double_mono [of "of_int (c - 1)" 0] by simp
  have "dbl_sub (Num (of_int c)) (Num 1) = to_double (Num (of_int (c - 1)))"
    by (simp add: dbl_sub_def js_sub_def)
  also have "\<dots> = NegInf \<or> \<dots> = Num (nearest_double (of_int (c - 1)))"
    using d by (simp only: to_double_Num) (smt (verit) zero_less_power)
  finally have "Math_max (Num 0) (dbl_sub (Num (of_int c)) (Num 1)) = Num 0"
    using d by (auto simp: max_def)
  with False show ?thesis by (simp add: max_def)
qed

text \<open>
  The index read, for \<open>p \<le> 100\<close> and an array shorter than \<open>2\<^sup>5\<^sup>3\<close>: it is the double rank
  index, and it is within the array.
\<close>

lemma computed_index:
  assumes n: "0 < n" and len: "n < 2 ^ 53" and p: "p \<le> 100"
  shows "Math_max (Num 0)
           (dbl_sub (js_ceil (dbl_mul (dbl_div (Num p) (Num 100)) (Num (real n)))) (Num 1))
         = Num (real (double_rank_index n p))
         \<and> double_rank_index n p < n"
proof -
  let ?q = "nearest_double (p / 100)"
  let ?t = "nearest_double (?q * real n)"
  let ?c = "\<lceil>?t\<rceil>"
  have nn: "nearest_double (real n) = real n" using len by simp
  have nb: "real n < 2 ^ 1024" by (rule real_nat_below [OF len])
  have q1: "?q \<le> 1" using nearest_double_mono [of "p / 100" 1] p by simp
  then have "?q * real n \<le> 1 * real n" by (intro mult_right_mono) simp_all
  then have t: "?t \<le> real n" using nearest_double_mono [of "?q * real n" "real n"] nn by simp
  then have c: "?c \<le> int n" by (simp add: ceiling_le_iff)
  then have j: "double_rank_index n p < n"
    using n unfolding double_rank_index_def by linarith
  have "int n < 2 ^ 53" using len by (metis of_nat_less_iff of_nat_numeral of_nat_power)
  with c have c53: "?c \<le> 2 ^ 53" by linarith
  have q_up: "\<not> 2 ^ 1024 \<le> ?q"
    using q1 by (smt (verit) one_less_power zero_less_numeral one_less_numeral_iff semiring_norm(76))
  have t_up: "\<not> 2 ^ 1024 \<le> ?t" using t nb by linarith
  have dq: "dbl_div (Num p) (Num 100) = (if ?q \<le> - (2 ^ 1024) then NegInf else Num ?q)"
    using q_up by (simp add: dbl_div_def Let_def)
  have zero_if: "double_rank_index n p = 0" if "?t \<le> 0"
  proof -
    from that have "?c \<le> 0" by (simp add: ceiling_le_iff)
    then show ?thesis by (simp add: double_rank_index_def)
  qed
  have "Math_max (Num 0)
           (dbl_sub (js_ceil (dbl_mul (dbl_div (Num p) (Num 100)) (Num (real n)))) (Num 1))
         = Num (real (double_rank_index n p))"
  proof (cases "?q \<le> - (2 ^ 1024)")
    case True
    then have "?q \<le> 0" by (smt (verit) zero_less_power)
    then have "?q * real n \<le> 0" by (simp add: mult_nonpos_nonneg)
    then have "?t \<le> 0" using nearest_double_mono [of "?q * real n" 0] by simp
    then have z: "double_rank_index n p = 0" by (rule zero_if)
    have "dbl_mul (dbl_div (Num p) (Num 100)) (Num (real n)) = NegInf"
      using True n by (simp add: dq dbl_mul_def)
    then show ?thesis by (simp add: index_after_NegInf z)
  next
    case False
    then have m: "dbl_mul (dbl_div (Num p) (Num 100)) (Num (real n))
                    = (if ?t \<le> - (2 ^ 1024) then NegInf else Num ?t)"
      using t_up by (simp add: dq dbl_mul_def Let_def)
    show ?thesis
    proof (cases "?t \<le> - (2 ^ 1024)")
      case True
      then have "?t \<le> 0" by (smt (verit) zero_less_power)
      then have z: "double_rank_index n p = 0" by (rule zero_if)
      from True show ?thesis by (simp add: m index_after_NegInf z)
    next
      case False
      then have "js_ceil (dbl_mul (dbl_div (Num p) (Num 100)) (Num (real n))) = Num (of_int ?c)"
        by (simp add: m)
      then show ?thesis
        using index_after_ceiling [OF c53] by (simp add: double_rank_index_def)
    qed
  qed
  with j show ?thesis by simp
qed

lemma array_read_nat: "j < length xs \<Longrightarrow> array_read xs (Num (real j)) = Some (xs ! j)"
  by (simp add: array_read_def)

lemma percentile_index_double:
  assumes "xs \<noteq> []" and "length xs < 2 ^ 53" and "p \<le> 100"
  shows "percentile xs p = Some (sort xs ! double_rank_index (length xs) p)
         \<and> double_rank_index (length xs) p < length xs"
proof -
  from assms(1) have "0 < length xs" by simp
  from computed_index [OF this assms(2,3)] show ?thesis
    by (simp add: percentile_def array_read_nat)
qed

lemma double_rank_index_100: "0 < n \<Longrightarrow> n < 2 ^ 53 \<Longrightarrow> double_rank_index n 100 = n - 1"
  by (simp add: double_rank_index_def)

lemma double_rank_index_0: "double_rank_index n 0 = 0"
  by (simp add: double_rank_index_def)

text \<open>
  Two computed cases. The double nearest to \<open>7 / 100\<close> lies above it, and its product with
  \<open>100\<close> rounds to the double next above \<open>7\<close>.
\<close>

lemma pow2_50: "(2::real) powi (- 50) = 1 / 1125899906842624"
  by (simp add: power_int_minus field_simps)

lemma example_7_percent_of_100:
  "nearest_double (5044031582654956 / 72057594037927936 * 100) = 7881299347898369 / 1125899906842624"
proof -
  let ?x = "5044031582654956 / 72057594037927936 * 100 :: real"
  have "nearest_double ?x
      = sgn ?x * (of_int (round_ties_even (\<bar>?x\<bar> / 2 powi (2 - 52))) * 2 powi (2 - 52))"
    by (rule nearest_double_binade) (simp_all add: power_int_minus)
  also have "\<dots> = 7881299347898369 / 1125899906842624"
    by (simp add: pow2_50 round_ties_even_def Let_def)
  finally show ?thesis .
qed

lemma double_rank_index_100_7: "double_rank_index 100 7 = 7"
proof -
  have "\<lceil>7881299347898369 / 1125899906842624 :: real\<rceil> = 8"
    by (simp add: ceiling_eq_iff)
  then show ?thesis
    unfolding double_rank_index_def example_7_percent of_nat_numeral example_7_percent_of_100
    by simp
qed

lemma sort_one_to_hundred: "sort one_to_hundred = one_to_hundred"
proof -
  have "sorted one_to_hundred"
    unfolding one_to_hundred_def by (simp only: sorted_map) (simp add: sorted_wrt_iff_nth_less)
  then show ?thesis by (rule sorted_sort_id)
qed

lemma length_one_to_hundred: "length one_to_hundred = 100"
  by (simp add: one_to_hundred_def)

lemma nearest_double_numeral:
  "(numeral k :: nat) < 2 ^ 53 \<Longrightarrow> nearest_double (numeral k) = numeral k"
  using nearest_double_nat [of "numeral k"] by simp

lemma one_to_hundred_nth: "i < 100 \<Longrightarrow> one_to_hundred ! i = real (Suc i)"
  by (simp add: one_to_hundred_def)

lemma percentile_one_to_hundred_7: "percentile one_to_hundred 7 = Some 8"
proof -
  have "percentile one_to_hundred 7
          = Some (sort one_to_hundred ! double_rank_index (length one_to_hundred) 7)"
  proof -
    have "one_to_hundred \<noteq> []" using length_one_to_hundred by auto
    moreover have "length one_to_hundred < 2 ^ 53" by (simp add: length_one_to_hundred)
    ultimately show ?thesis using percentile_index_double [of one_to_hundred 7] by simp
  qed
  then show ?thesis
    by (simp add: sort_one_to_hundred length_one_to_hundred double_rank_index_100_7
          one_to_hundred_nth)
qed

lemma nearest_rank_index_100_7: "nearest_rank_index 100 7 = 6"
  by (simp add: nearest_rank_index_def)

lemma nearest_double_half: "nearest_double (1 / 2) = 1 / 2"
proof -
  have "nearest_double (1 / 2)
      = sgn (1 / 2 :: real) * (of_int (round_ties_even (\<bar>1 / 2\<bar> / 2 powi (- 1 - 52))) * 2 powi (- 1 - 52))"
    by (rule nearest_double_binade) (simp_all add: power_int_minus)
  also have "\<dots> = 1 / 2"
    by (simp add: power_int_minus round_ties_even_def Let_def)
  finally show ?thesis .
qed

lemma nearest_double_3_halves: "nearest_double (3 / 2) = 3 / 2"
proof -
  have "nearest_double (3 / 2)
      = sgn (3 / 2 :: real) * (of_int (round_ties_even (\<bar>3 / 2\<bar> / 2 powi (0 - 52))) * 2 powi (0 - 52))"
    by (rule nearest_double_binade) (simp_all add: power_int_minus)
  also have "\<dots> = 3 / 2"
    by (simp add: power_int_minus round_ties_even_def Let_def)
  finally show ?thesis .
qed

lemma double_rank_index_3_50: "double_rank_index 3 50 = 1"
proof -
  have "\<lceil>3 / 2 :: real\<rceil> = 2" by (simp add: ceiling_eq_iff)
  then show ?thesis
    by (simp add: double_rank_index_def nearest_double_half nearest_double_3_halves)
qed

subsection \<open>The ceiling of a rounded quotient\<close>

lemma rte_lower: "r - 1 / 2 \<le> of_int (round_ties_even r)"
proof (cases "r - of_int \<lfloor>r\<rfloor> \<le> 1 / 2")
  case True
  with rte_bounds [of r] show ?thesis by linarith
next
  case False
  then have "round_ties_even r = \<lfloor>r\<rfloor> + 1" by (simp add: round_ties_even_def Let_def)
  moreover have "r < of_int \<lfloor>r\<rfloor> + 1" by linarith
  ultimately show ?thesis by (simp only: of_int_add of_int_1)
qed

lemma nearest_double_lower:
  assumes "0 < x"
  shows "x - ulp x / 2 \<le> nearest_double x"
proof -
  have "(x / ulp x - 1 / 2) * ulp x \<le> of_int (round_ties_even (x / ulp x)) * ulp x"
    by (intro mult_right_mono rte_lower) simp
  moreover have "(x / ulp x - 1 / 2) * ulp x = x - ulp x / 2"
  proof -
    have "ulp x \<noteq> 0" by (simp add: ulp_def)
    then show ?thesis by (simp add: field_simps)
  qed
  ultimately show ?thesis using assms by (simp add: nearest_double_def)
qed

lemma half_ulp_bound:
  assumes "0 < x"
  shows "ulp x / 2 \<le> x / 2 ^ 53 \<or> ulp x / 2 = 2 powi (- 1075)"
proof (cases "double_exponent x = - 1022")
  case True
  then have "ulp x = 2 powi (- 1074)" by (simp add: ulp_def)
  also have "\<dots> = 2 * 2 powi (- 1075)"
    using power_int_add [of "2::real" 1 "- 1075"] by simp
  finally show ?thesis by simp
next
  case False
  with double_exponent_ge [of x] have "- 1022 < double_exponent x" by linarith
  with assms have le: "2 powi (double_exponent x) \<le> x"
    using double_exponent_lower [of x] by simp
  have "ulp x = 2 powi (double_exponent x) * 2 powi (- 52)"
    unfolding ulp_def using power_int_add [of "2::real" "double_exponent x" "- 52"] by simp
  also have "(2::real) powi (- 52) = 2 / 2 ^ 53" by (simp add: power_int_minus field_simps)
  finally have "ulp x / 2 = 2 powi (double_exponent x) / 2 ^ 53" by simp
  also have "\<dots> \<le> x / 2 ^ 53" using le by (intro divide_right_mono) simp_all
  finally show ?thesis by simp
qed

lemma tiny_below: "(2::real) powi (- 1075) < 1 / 2 ^ 53"
proof -
  have "(2::real) powi (- 1075) < 2 powi (- 53)" by (intro power_int_strict_increasing) simp_all
  then show ?thesis by (simp add: power_int_minus field_simps)
qed

text \<open>
  The quotient of two integers below \<open>2\<^sup>5\<^sup>3\<close> is at least \<open>1 / b\<close> above the integer below
  it, more than half the spacing of the doubles there: its rounding has the same ceiling.
\<close>

lemma ceiling_dbl_div_nat:
  assumes b: "0 < b" and b53: "b < 2 ^ 53" and r53: "r < 2 ^ 53"
  shows "js_ceil (dbl_div (Num (real r)) (Num (real b))) = Num (of_int \<lceil>real r / real b\<rceil>)"
proof (cases "r = 0")
  case True
  then show ?thesis using b by (simp add: dbl_div_def)
next
  case False
  let ?x = "real r / real b"
  let ?c = "\<lceil>?x\<rceil>"
  from False b have x: "0 < ?x" by simp
  have rb: "real b < 2 ^ 53"
  proof -
    from b53 have "real b < real ((2::nat) ^ 53)" by (simp only: of_nat_less_iff)
    then show ?thesis by simp
  qed
  have rr: "real r < 2 ^ 53"
  proof -
    from r53 have "real r < real ((2::nat) ^ 53)" by (simp only: of_nat_less_iff)
    then show ?thesis by simp
  qed
  have "1 \<le> real b" using b by simp
  then have xr: "?x \<le> real r" by (simp add: divide_le_eq mult_le_cancel_left1)
  then have cr: "?c \<le> int r" by (simp add: ceiling_le_iff)
  have "int r < 2 ^ 53" using r53 by (metis of_nat_less_iff of_nat_numeral of_nat_power)
  with cr have c53: "?c < 2 ^ 53" by linarith
  from x have c0: "0 < ?c" by simp
  with c53 have "\<bar>?c\<bar> < 2 ^ 53" by simp
  then have fc: "nearest_double (of_int ?c) = of_int ?c" by (rule nearest_double_int_exact)
  have up: "nearest_double ?x \<le> of_int ?c"
    using nearest_double_mono [of ?x "of_int ?c"] fc by simp
  have gap: "of_int ?c - 1 + 1 / real b \<le> ?x"
  proof -
    have "of_int (?c - 1) < ?x" by (simp only: less_ceiling_iff [symmetric])
    then have "of_int (?c - 1) * real b < real r" using b by (simp add: pos_less_divide_eq)
    then have "real_of_int ((?c - 1) * int b) < real_of_int (int r)" by simp
    then have "(?c - 1) * int b < int r" by (simp only: of_int_less_iff)
    then have "(?c - 1) * int b + 1 \<le> int r" by simp
    then have "real_of_int ((?c - 1) * int b + 1) \<le> real_of_int (int r)" by (simp only: of_int_le_iff)
    then have "(of_int ?c - 1) * real b + 1 \<le> real r" by simp
    then have "((of_int ?c - 1) * real b + 1) / real b \<le> ?x"
      using b by (intro divide_right_mono) simp_all
    moreover have "((of_int ?c - 1) * real b + 1) / real b = of_int ?c - 1 + 1 / real b"
      using b by (simp add: field_simps)
    ultimately show ?thesis by simp
  qed
  have half: "ulp ?x / 2 < 1 / real b"
  proof -
    have a: "?x / 2 ^ 53 < 1 / real b"
    proof -
      have "?x / 2 ^ 53 = (real r / 2 ^ 53) / real b" by simp
      also have "\<dots> < 1 / real b"
        using rr b by (intro divide_strict_right_mono) simp_all
      finally show ?thesis .
    qed
    have "1 / 2 ^ 53 < 1 / real b"
      using rb b by (intro divide_strict_left_mono) simp_all
    with tiny_below have "2 powi (- 1075) < 1 / real b" by linarith
    with a half_ulp_bound [OF x] show ?thesis by auto
  qed
  have lo: "of_int ?c - 1 < nearest_double ?x"
    using nearest_double_lower [OF x] gap half by linarith
  have ceil: "\<lceil>nearest_double ?x\<rceil> = ?c"
    using lo up by (intro ceiling_unique) simp_all
  have "nearest_double ?x \<le> real r"
    using up cr by (smt (verit) of_int_le_iff of_int_of_nat_eq)
  with rr two_53_below have top: "\<not> 2 ^ 1024 \<le> nearest_double ?x" by linarith
  from lo c0 have "0 \<le> nearest_double ?x" by (smt (verit) of_int_1_le_iff)
  then have bot: "\<not> nearest_double ?x \<le> - (2 ^ 1024)" by (smt (verit) zero_less_power)
  have "dbl_div (Num (real r)) (Num (real b)) = Num (nearest_double ?x)"
    using b top bot by (simp add: dbl_div_def Let_def)
  then show ?thesis by (simp add: ceil)
qed

subsection \<open>The empty array\<close>

text \<open>Nothing can be read from the empty array.\<close>

lemma array_read_Nil: "array_read [] v = None"
  by (cases v) (simp_all add: array_read_def)

lemma percentile_Nil: "percentile [] p = None"
  by (simp add: percentile_def array_read_Nil)

lemma percentile_defined:
  assumes "xs \<noteq> []" and "length xs < 2 ^ 53" and "p \<le> 100"
  shows "\<exists>v. percentile xs p = Some v"
  using percentile_index_double [OF assms] by simp

subsection \<open>The read of the percentile, for every \<open>p\<close>\<close>

lemma nearest_double_2_53: "nearest_double (2 ^ 53) = 2 ^ 53"
proof -
  have "nearest_double (2 ^ 53)
      = sgn (2 ^ 53 :: real) * (of_int (round_ties_even (\<bar>2 ^ 53\<bar> / 2 powi (53 - 52))) * 2 powi (53 - 52))"
    by (rule nearest_double_binade) simp_all
  also have "\<dots> = 2 ^ 53"
    by (simp add: round_ties_even_def Let_def)
  finally show ?thesis .
qed

lemma index_past_end:
  assumes "2 ^ 53 \<le> x" and "n < 2 ^ 53"
  shows "\<not> nat (max 0 (\<lceil>nearest_double x\<rceil> - 1)) < n"
proof -
  have "2 ^ 53 \<le> nearest_double x"
    using nearest_double_mono [OF assms(1)] unfolding nearest_double_2_53 .
  also have "\<dots> \<le> of_int \<lceil>nearest_double x\<rceil>" by simp
  finally have "real_of_int (2 ^ 53) \<le> of_int \<lceil>nearest_double x\<rceil>" by simp
  then have "2 ^ 53 \<le> \<lceil>nearest_double x\<rceil>" by (simp only: of_int_le_iff)
  moreover have "int n < 2 ^ 53" using assms(2) by (metis of_nat_less_iff of_nat_numeral of_nat_power)
  ultimately show ?thesis by linarith
qed

lemma read_after_PosInf:
  "array_read ys (Math_max (Num 0) (dbl_sub PosInf (Num 1))) = None"
  by (simp add: dbl_sub_def js_sub_def array_read_def)

lemma read_after_ceiling:
  assumes n: "0 < length ys" and len: "length ys < 2 ^ 53"
  shows "array_read ys (Math_max (Num 0) (dbl_sub (Num (of_int c)) (Num 1)))
         = (if nat (max 0 (c - 1)) < length ys then Some (ys ! nat (max 0 (c - 1)))
            else None)"
proof (cases "c - 1 < int (length ys)")
  case True
  have "int (length ys) < 2 ^ 53"
    using len by (metis of_nat_less_iff of_nat_numeral of_nat_power)
  with True have "c \<le> 2 ^ 53" by linarith
  then have "Math_max (Num 0) (dbl_sub (Num (of_int c)) (Num 1))
               = Num (real (nat (max 0 (c - 1))))"
    by (rule index_after_ceiling)
  moreover from True n have "nat (max 0 (c - 1)) < length ys" by linarith
  ultimately show ?thesis by (simp only: array_read_nat if_True)
next
  case False
  then have ge: "real (length ys) \<le> of_int (c - 1)" by linarith
  let ?d = "nearest_double (of_int (c - 1))"
  have d: "real (length ys) \<le> ?d"
    using nearest_double_mono [OF ge] len by simp
  have "dbl_sub (Num (of_int c)) (Num 1) = to_double (Num (of_int (c - 1)))"
    by (simp add: dbl_sub_def js_sub_def)
  also have "\<dots> = PosInf \<or> \<dots> = Num ?d"
    using d n by (simp only: to_double_Num) (smt (verit) of_nat_0_le_iff zero_less_power)
  finally have "dbl_sub (Num (of_int c)) (Num 1) = PosInf \<or> dbl_sub (Num (of_int c)) (Num 1) = Num ?d" .
  moreover have "array_read ys (Math_max (Num 0) PosInf) = None"
    by (simp add: array_read_def)
  moreover have "array_read ys (Math_max (Num 0) (Num ?d)) = None"
  proof -
    have "int (length ys) \<le> \<lfloor>?d\<rfloor>" using d by (simp add: le_floor_iff)
    then have "\<not> nat \<lfloor>max 0 ?d\<rfloor> < length ys" using d by (simp add: max_def)
    then show ?thesis by (simp add: array_read_def)
  qed
  ultimately have "array_read ys (Math_max (Num 0) (dbl_sub (Num (of_int c)) (Num 1))) = None"
    by auto
  moreover from False have "\<not> nat (max 0 (c - 1)) < length ys" by linarith
  ultimately show ?thesis by simp
qed

text \<open>
  The read of \<open>percentile\<close>, for every \<open>p\<close>: the element at the double rank index when that
  index is within the array, and nothing when it is past the end.
\<close>

lemma computed_read:
  assumes n: "0 < length ys" and len: "length ys < 2 ^ 53"
  shows "array_read ys (Math_max (Num 0)
           (dbl_sub (js_ceil (dbl_mul (dbl_div (Num p) (Num 100)) (Num (real (length ys)))))
                    (Num 1)))
         = (if double_rank_index (length ys) p < length ys
            then Some (ys ! double_rank_index (length ys) p) else None)"
proof -
  let ?n = "length ys"
  let ?q = "nearest_double (p / 100)"
  let ?t = "nearest_double (?q * real ?n)"
  let ?c = "\<lceil>?t\<rceil>"
  let ?lhs = "array_read ys (Math_max (Num 0)
           (dbl_sub (js_ceil (dbl_mul (dbl_div (Num p) (Num 100)) (Num (real ?n)))) (Num 1)))"
  have n1: "1 \<le> real ?n" using n by (cases ys) simp_all
  have dq: "dbl_div (Num p) (Num 100)
              = (if 2 ^ 1024 \<le> ?q then PosInf else if ?q \<le> - (2 ^ 1024) then NegInf else Num ?q)"
    by (simp add: dbl_div_def Let_def)
  have first: "array_read ys (Num 0) = Some (ys ! 0)"
    using array_read_nat [of 0 ys] n by simp
  have zero_if: "double_rank_index ?n p = 0" if "?t \<le> 0"
  proof -
    from that have "?c \<le> 0" by (simp add: ceiling_le_iff)
    then show ?thesis by (simp add: double_rank_index_def)
  qed
  have past_if: "\<not> double_rank_index ?n p < ?n" if "2 ^ 53 \<le> ?q * real ?n"
    using index_past_end [OF that len] by (simp add: double_rank_index_def)
  consider (up) "2 ^ 1024 \<le> ?q" | (down) "?q \<le> - (2 ^ 1024)"
    | (mid) "\<not> 2 ^ 1024 \<le> ?q" "\<not> ?q \<le> - (2 ^ 1024)" by blast
  then show ?thesis
  proof cases
    case up
    then have "dbl_mul (dbl_div (Num p) (Num 100)) (Num (real ?n)) = PosInf"
      using n by (simp add: dq dbl_mul_def)
    then have l: "?lhs = None" by (simp add: read_after_PosInf)
    have "(2::real) ^ 53 \<le> 2 ^ 1024" using two_53_below by simp
    with up have "2 ^ 53 \<le> ?q" by linarith
    also have "?q \<le> ?q * real ?n"
    proof -
      have "0 \<le> ?q" using up by (smt (verit) zero_less_power)
      then have "?q * 1 \<le> ?q * real ?n" using n1 by (rule mult_left_mono [rotated])
      then show ?thesis by simp
    qed
    finally have "\<not> double_rank_index ?n p < ?n" by (rule past_if)
    with l show ?thesis by simp
  next
    case down
    then have "?q \<le> 0" by (smt (verit) zero_less_power)
    then have "?q * real ?n \<le> 0" by (simp add: mult_nonpos_nonneg)
    then have "?t \<le> 0" using nearest_double_mono [of "?q * real ?n" 0] by simp
    then have z: "double_rank_index ?n p = 0" by (rule zero_if)
    have q_up: "\<not> 2 ^ 1024 \<le> ?q" using down by (smt (verit) zero_less_power)
    have "dbl_mul (dbl_div (Num p) (Num 100)) (Num (real ?n)) = NegInf"
      using down q_up n by (simp add: dq dbl_mul_def)
    then have "?lhs = Some (ys ! 0)" by (simp add: index_after_NegInf first)
    with z n show ?thesis by simp
  next
    case mid
    then have m: "dbl_mul (dbl_div (Num p) (Num 100)) (Num (real ?n))
                    = (if 2 ^ 1024 \<le> ?t then PosInf
                       else if ?t \<le> - (2 ^ 1024) then NegInf else Num ?t)"
      by (simp add: dq dbl_mul_def Let_def)
    consider (tup) "2 ^ 1024 \<le> ?t" | (tdown) "?t \<le> - (2 ^ 1024)"
      | (tmid) "\<not> 2 ^ 1024 \<le> ?t" "\<not> ?t \<le> - (2 ^ 1024)" by blast
    then show ?thesis
    proof cases
      case tup
      then have l: "?lhs = None" by (simp add: m read_after_PosInf)
      have "(2::real) ^ 53 \<le> 2 ^ 1024" using two_53_below by simp
      with tup have "2 ^ 53 \<le> ?t" by linarith
      then have "real_of_int (2 ^ 53) \<le> of_int ?c" by (simp add: order_trans [OF _ le_of_int_ceiling])
      then have "2 ^ 53 \<le> ?c" by (simp only: of_int_le_iff)
      moreover have "int ?n < 2 ^ 53" using len by (metis of_nat_less_iff of_nat_numeral of_nat_power)
      ultimately have "\<not> double_rank_index ?n p < ?n"
        by (simp add: double_rank_index_def) linarith
      with l show ?thesis by simp
    next
      case tdown
      then have "?t \<le> 0" by (smt (verit) zero_less_power)
      then have z: "double_rank_index ?n p = 0" by (rule zero_if)
      have t_up: "\<not> 2 ^ 1024 \<le> ?t" using tdown by (smt (verit) zero_less_power)
      from tdown t_up have "?lhs = Some (ys ! 0)" by (simp add: m index_after_NegInf first)
      with z n show ?thesis by simp
    next
      case tmid
      then have "js_ceil (dbl_mul (dbl_div (Num p) (Num 100)) (Num (real ?n))) = Num (of_int ?c)"
        by (simp add: m)
      then show ?thesis
        using read_after_ceiling [OF n len, of ?c] by (simp add: double_rank_index_def)
    qed
  qed
qed

lemma percentile_read:
  assumes "length xs < 2 ^ 53"
  shows "percentile xs p = (if double_rank_index (length xs) p < length xs
                            then Some (sort xs ! double_rank_index (length xs) p) else None)"
proof (cases "xs = []")
  case True
  then show ?thesis by (simp add: percentile_Nil)
next
  case False
  then have "0 < length (sort xs)" by simp
  moreover from assms have "length (sort xs) < 2 ^ 53" by simp
  ultimately show ?thesis
    using computed_read [of "sort xs" p] by (simp add: percentile_def)
qed

lemma double_rank_index_3_200: "double_rank_index 3 200 = 5"
  by (simp add: double_rank_index_def nearest_double_numeral)

section \<open>Claims about the statistics\<close>

text \<open>
  Claim C5, as stated, fails in two ways. The source bounds the index from below only
  (\<open>Math.max(0, idx)\<close>): for \<open>p = 200\<close> on \<open>[1, 2]\<close> the index is \<open>3\<close>, past the end, and the
  result is \<open>undefined\<close>, where the index clamped to \<open>[0, n-1]\<close> reads \<open>2\<close>. And the index is
  computed in doubles: on the sample \<open>1, \<dots>, 100\<close> the 7th percentile is \<open>8\<close>, where the index
  \<open>ceil(7/100 * 100) - 1 = 6\<close> reads \<open>7\<close>.
\<close>

theorem percentile_rank_counterexample:
  "percentile [1, 2] 200 = None
   \<and> sort [1, 2 :: real] ! nearest_rank_index 2 200 = 2
   \<and> percentile one_to_hundred 7 = Some 8
   \<and> sort one_to_hundred ! nearest_rank_index 100 7 = 7"
proof -
  have a: "percentile [1, 2] 200 = None"
    by (simp add: percentile_def dbl_div_def dbl_mul_def dbl_sub_def js_sub_def array_read_def
          nearest_double_numeral)
  have b: "sort [1, 2 :: real] ! nearest_rank_index 2 200 = 2"
    by (simp add: nearest_rank_index_def)
  have c: "sort one_to_hundred ! nearest_rank_index 100 7 = 7"
    by (simp add: sort_one_to_hundred nearest_rank_index_100_7 one_to_hundred_nth)
  from a b c percentile_one_to_hundred_7 show ?thesis by simp
qed

text \<open>
  Claim C5, amended. For a nonempty sequence \<open>xs\<close> of length \<open>n\<close> and a percentile \<open>p\<close>,
  \<open>percentile\<close> sorts \<open>xs\<close> ascending and reads the index \<open>max(0, ceil(p/100 * n) - 1)\<close>, the
  quotient and the product each rounded to the nearest double: it returns the element there
  (nearest rank, no interpolation) when the index is at most \<open>n - 1\<close>, as it is for every
  \<open>p \<le> 100\<close>, and \<open>undefined\<close> when the index is past the end. \<open>percentile xs 100\<close> is the
  maximum of \<open>xs\<close> and \<open>percentile xs 0\<close> is the first element of the sorted \<open>xs\<close>. The
  length of an array is an integer below \<open>2\<^sup>3\<^sup>2\<close>, read exactly as a double; the bound used is
  \<open>2\<^sup>5\<^sup>3\<close>.
\<close>

theorem percentile_double_rank:
  assumes "xs \<noteq> []" and "length xs < 2 ^ 53"
  shows "percentile xs p = (if double_rank_index (length xs) p < length xs
                            then Some (sort xs ! double_rank_index (length xs) p) else None)
       \<and> (p \<le> 100 \<longrightarrow> double_rank_index (length xs) p < length xs)
       \<and> percentile xs 100 = Some (Max (set xs))
       \<and> percentile xs 0 = Some (hd (sort xs))"
proof -
  let ?n = "length xs"
  from assms(1) have n: "0 < ?n" by simp
  have sne: "sort xs \<noteq> []" using assms(1) by (metis length_sort length_0_conv)
  have a: "percentile xs p = (if double_rank_index ?n p < ?n
                             then Some (sort xs ! double_rank_index ?n p) else None)"
    by (rule percentile_read [OF assms(2)])
  have i: "p \<le> 100 \<longrightarrow> double_rank_index ?n p < ?n"
    using percentile_index_double [OF assms, of p] by simp
  have "percentile xs 100 = Some (sort xs ! (?n - 1))"
    using percentile_index_double [OF assms, of 100] n assms(2)
    by (simp add: double_rank_index_100)
  also have "sort xs ! (?n - 1) = last (sort xs)"
    using sne by (simp add: last_conv_nth)
  also have "\<dots> = Max (set xs)"
    using sorted_last_Max [of "sort xs"] sne by simp
  finally have b: "percentile xs 100 = Some (Max (set xs))" .
  have c: "percentile xs 0 = Some (hd (sort xs))"
    using percentile_index_double [OF assms, of 0] sne
    by (simp add: double_rank_index_0 hd_conv_nth)
  from a i b c show ?thesis by simp
qed

theorem percentile_double_rank_witness:
  "[3, 1, 2 :: real] \<noteq> [] \<and> length [3, 1, 2 :: real] < 2 ^ 53 \<and> (50 :: real) \<le> 100
   \<and> percentile [3, 1, 2] 50 = Some 2
   \<and> percentile [3, 1, 2] 100 = Some 3
   \<and> percentile [3, 1, 2] 0 = Some 1
   \<and> percentile [3, 1, 2] 200 = None"
  using percentile_double_rank [of "[3, 1, 2]" 50] percentile_double_rank [of "[3, 1, 2]" 200]
    double_rank_index_3_50 double_rank_index_3_200
  by (simp add: numeral_3_eq_3)

text \<open>
  Claim C7, as stated, fails: for fewer than two values \<open>std\<close> signals nothing. On one value
  it returns \<open>NaN\<close> (\<open>0 / 0\<close>), on no value it returns zero (\<open>0 / -1\<close>).
\<close>

theorem std_no_signal_counterexample:
  "length [5 :: real] < 2 \<and> std_outcome [5] \<noteq> Inl InsufficientSample \<and> std_outcome [5] = Inr NaN
   \<and> length ([] :: real list) < 2 \<and> std_outcome [] = Inr (Num 0)"
  by (simp add: std_outcome_def std_singleton std_empty)

text \<open>
  Claim C7, amended. For \<open>n \<ge> 2\<close> values \<open>std\<close> returns the Bessel-corrected standard
  deviation \<open>sqrt (\<Sum>(x - mean xs)\<^sup>2 / (n - 1))\<close>. For \<open>n < 2\<close> it raises no error: it
  returns \<open>NaN\<close> when \<open>n = 1\<close> and zero when \<open>n = 0\<close>.
\<close>

theorem std_bessel_no_signal:
  "(2 \<le> length xs \<longrightarrow> std_outcome xs = Inr (Num (sample_std_spec xs)))
   \<and> (length xs = 1 \<longrightarrow> std_outcome xs = Inr NaN)
   \<and> (xs = [] \<longrightarrow> std_outcome xs = Inr (Num 0))"
proof (intro conjI impI)
  assume "2 \<le> length xs"
  then show "std_outcome xs = Inr (Num (sample_std_spec xs))"
    by (simp add: std_outcome_def std_two_or_more)
next
  assume "length xs = 1"
  then obtain x where "xs = [x]" by (cases xs) auto
  then show "std_outcome xs = Inr NaN"
    by (simp add: std_outcome_def std_singleton)
next
  assume "xs = []"
  then show "std_outcome xs = Inr (Num 0)"
    by (simp add: std_outcome_def std_empty)
qed

theorem std_bessel_no_signal_witness:
  "2 \<le> length [1, 3 :: real] \<and> std_outcome [1, 3] = Inr (Num (sqrt 2))
   \<and> length [5 :: real] = 1 \<and> std_outcome [5] = Inr NaN
   \<and> std_outcome [] = Inr (Num 0)"
  using std_bessel_no_signal [of "[1, 3]"] std_bessel_no_signal [of "[5]"]
    std_bessel_no_signal [of "[]"]
  by (simp add: sample_std_spec_def mean_spec_def)

text \<open>
  Claim C8. For a nonempty sequence \<open>xs\<close> of length \<open>n\<close>, \<open>ci95\<close> returns the interval
  \<open>mean xs \<plusminus> t * std xs / \<surd>n\<close> with \<open>t = 1.96\<close> when \<open>n \<ge> 30\<close> and \<open>t = 2.093\<close> for every
  \<open>n < 30\<close>. The first conjunct states it with the arithmetic of the source, the second, for
  \<open>n \<ge> 2\<close> where the deviation is a finite number, over the reals.
\<close>

theorem ci95_interval:
  assumes "xs \<noteq> []"
  shows "ci95 xs =
           (let t = (if 30 \<le> length xs then 1.96 else 2.093);
                se = js_div (std xs) (Num (sqrt (real (length xs))))
            in (js_sub (mean xs) (js_mul (Num t) se), js_add (mean xs) (js_mul (Num t) se)))
       \<and> (2 \<le> length xs \<longrightarrow>
            ci95 xs =
              (let t = (if 30 \<le> length xs then 1.96 else 2.093);
                   h = t * (sample_std_spec xs / sqrt (real (length xs)))
               in (Num (mean_spec xs - h), Num (mean_spec xs + h))))"
proof (intro conjI impI)
  show "ci95 xs =
           (let t = (if 30 \<le> length xs then 1.96 else 2.093);
                se = js_div (std xs) (Num (sqrt (real (length xs))))
            in (js_sub (mean xs) (js_mul (Num t) se), js_add (mean xs) (js_mul (Num t) se)))"
    by (simp add: ci95_def Let_def)
next
  assume two: "2 \<le> length xs"
  show "ci95 xs =
              (let t = (if 30 \<le> length xs then 1.96 else 2.093);
                   h = t * (sample_std_spec xs / sqrt (real (length xs)))
               in (Num (mean_spec xs - h), Num (mean_spec xs + h)))"
    using assms
    by (simp add: ci95_def Let_def std_two_or_more [OF two] mean_nonempty [OF assms] js_sub_def)
qed

theorem ci95_interval_witness:
  "[1, 3 :: real] \<noteq> [] \<and> 2 \<le> length [1, 3 :: real]
   \<and> ci95 [1, 3] = (Num (2 - 2.093), Num (2 + 2.093))"
proof -
  have ne: "[1, 3 :: real] \<noteq> []" by simp
  from ci95_interval [OF ne]
  have "2 \<le> length [1, 3 :: real] \<longrightarrow>
          ci95 [1, 3] =
            (let t = (if 30 \<le> length [1, 3 :: real] then 1.96 else 2.093);
                 h = t * (sample_std_spec [1, 3] / sqrt (real (length [1, 3 :: real])))
             in (Num (mean_spec [1, 3] - h), Num (mean_spec [1, 3] + h)))"
    by (rule conjunct2)
  then show ?thesis
    by (simp add: sample_std_spec_def mean_spec_def Let_def)
qed

section \<open>Facts about the recall benchmark\<close>

lemma recall_attempts_frame:
  "recall_attempts be ns num k attempt st = (r, st') \<Longrightarrow>
     rawRuns st' = rawRuns st \<and> completedSet st' = completedSet st \<and>
     completed st' = completed st \<and> saved st' = saved st \<and>
     set (probe_calls st') \<subseteq> insert (ns, k) (set (probe_calls st))"
proof (induction be ns num k attempt st arbitrary: r st' rule: recall_attempts.induct)
  case (1 be ns num k attempt st)
  show ?case
  proof (cases "be (length (probe_calls st)) ns num k")
    case (Resolved result latency)
    with "1.prems" show ?thesis
      by (subst (asm) recall_attempts.simps) auto
  next
    case (Rejected status)
    show ?thesis
    proof (cases "isRetryable status \<and> attempt < MAX_RETRIES")
      case True
      with Rejected "1.prems"
      have "recall_attempts be ns num k (attempt + 1)
              (st\<lparr>probe_calls := probe_calls st @ [(ns, k)],
                  sleeps := sleeps st @ [RETRY_BASE_MS * 2 ^ ((attempt + 1) - 1)]\<rparr>) = (r, st')"
        by (subst (asm) recall_attempts.simps) simp
      from "1.IH" [OF Rejected True this] show ?thesis by auto
    next
      case False
      with Rejected "1.prems" show ?thesis
        by (subst (asm) recall_attempts.simps) auto
    qed
  qed
qed

lemma push_run_fields [simp]:
  "completedSet (push_run ns k r result latency st) = completedSet st"
  "saved (push_run ns k r result latency st) = saved st"
  "probe_calls (push_run ns k r result latency st) = probe_calls st"
  "sleeps (push_run ns k r result latency st) = sleeps st"
  "completed (push_run ns k r result latency st) = completed st"
  by (simp_all add: push_run_def)

lemma push_run_rawRuns:
  "\<exists>x. rawRuns (push_run ns k r result latency st) = rawRuns st @ [x] \<and> namespace x = ns \<and> top_k x = k"
  by (simp add: push_run_def)

lemma inter_call_delay_fields [simp]:
  "completedSet (inter_call_delay n st) = completedSet st"
  "saved (inter_call_delay n st) = saved st"
  "probe_calls (inter_call_delay n st) = probe_calls st"
  "rawRuns (inter_call_delay n st) = rawRuns st"
  "completed (inter_call_delay n st) = completed st"
  by (simp_all add: inter_call_delay_def)

lemma run_loop_frame:
  "run_loop be ns num k totalCalls rs st = (e, st') \<Longrightarrow>
     completedSet st' = completedSet st \<and> saved st' = saved st \<and>
     set (probe_calls st') \<subseteq> insert (ns, k) (set (probe_calls st)) \<and>
     (\<exists>new. rawRuns st' = rawRuns st @ new \<and> (\<forall>r \<in> set new. namespace r = ns \<and> top_k r = k))"
proof (induction rs arbitrary: st)
  case Nil
  then show ?case by auto
next
  case (Cons r rs)
  obtain res st1 where ra: "recall_attempts be ns num k 0 (st\<lparr>completed := completed st + 1\<rparr>) = (res, st1)"
    by (cases "recall_attempts be ns num k 0 (st\<lparr>completed := completed st + 1\<rparr>)")
  note fr = recall_attempts_frame [OF ra]
  show ?case
  proof (cases res)
    case (Inl err)
    with Cons.prems ra fr show ?thesis by auto
  next
    case (Inr p)
    obtain result latency where p: "p = (result, latency)" by (cases p)
    let ?st2 = "inter_call_delay totalCalls (push_run ns k r result latency st1)"
    from Cons.prems ra Inr p have "run_loop be ns num k totalCalls rs ?st2 = (e, st')"
      by simp
    from Cons.IH [OF this] obtain new where
      n: "completedSet st' = completedSet ?st2" "saved st' = saved ?st2"
         "set (probe_calls st') \<subseteq> insert (ns, k) (set (probe_calls ?st2))"
         "rawRuns st' = rawRuns ?st2 @ new" "\<forall>r \<in> set new. namespace r = ns \<and> top_k r = k"
      by blast
    from push_run_rawRuns [of ns k r result latency st1] obtain x where
      x: "rawRuns (push_run ns k r result latency st1) = rawRuns st1 @ [x]"
         "namespace x = ns" "top_k x = k"
      by blast
    have "rawRuns st' = rawRuns st @ (x # new)"
      using n(4) x(1) fr by simp
    moreover have "\<forall>r \<in> set (x # new). namespace r = ns \<and> top_k r = k"
      using n(5) x by simp
    ultimately have r: "\<exists>new. rawRuns st' = rawRuns st @ new \<and> (\<forall>r \<in> set new. namespace r = ns \<and> top_k r = k)"
      by blast
    have c: "set (probe_calls st') \<subseteq> insert (ns, k) (set (probe_calls st))"
      using n(3) fr by auto
    from n(1,2) fr r c show ?thesis by simp
  qed
qed

lemma set_add_set: "set (set_add s x) = insert x (set s)"
  by (auto simp: set_add_def)

lemma new_Set_set_aux: "set (foldl set_add acc xs) = set acc \<union> set xs"
  by (induction xs arbitrary: acc) (auto simp: set_add_set)

lemma new_Set_set: "set (new_Set xs) = set xs"
  by (simp add: new_Set_def new_Set_set_aux)

lemma untouched_refl: "configKey ns0 k0 \<in> set (completedSet st) \<Longrightarrow> untouched ns0 k0 st st"
  by (simp add: untouched_def)

lemma untouched_trans: "untouched ns0 k0 st st1 \<Longrightarrow> untouched ns0 k0 st1 st2 \<Longrightarrow> untouched ns0 k0 st st2"
  by (auto simp: untouched_def)

lemma run_loop_untouched:
  assumes "run_loop be ns num k totalCalls rs st = (e, st')"
    and "configKey ns0 k0 \<in> set (completedSet st)"
    and "configKey ns k \<notin> set (completedSet st)"
  shows "untouched ns0 k0 st st'"
proof -
  from assms(2,3) have ne: "(ns, k) \<noteq> (ns0, k0)" by auto
  from run_loop_frame [OF assms(1)] obtain new where
    f: "completedSet st' = completedSet st"
       "set (probe_calls st') \<subseteq> insert (ns, k) (set (probe_calls st))"
       "rawRuns st' = rawRuns st @ new" "\<forall>r \<in> set new. namespace r = ns \<and> top_k r = k"
    by blast
  from f(4) ne have "filter (\<lambda>r. namespace r = ns0 \<and> top_k r = k0) new = []"
    by (auto simp: filter_empty_conv)
  with f assms(2) ne show ?thesis
    by (auto simp: untouched_def)
qed

lemma topk_loop_untouched:
  "topk_loop be ns num runs totalCalls ks st = (e, st') \<Longrightarrow>
   configKey ns0 k0 \<in> set (completedSet st) \<Longrightarrow> untouched ns0 k0 st st'"
proof (induction ks arbitrary: st)
  case Nil
  then show ?case by (simp add: untouched_refl)
next
  case (Cons k ks)
  show ?case
  proof (cases "configKey ns k \<in> set (completedSet st)")
    case True
    with Cons.prems have "topk_loop be ns num runs totalCalls ks st = (e, st')" by simp
    from Cons.IH [OF this Cons.prems(2)] show ?thesis .
  next
    case False
    obtain e1 st1 where rl: "run_loop be ns num k totalCalls [0..<runs] st = (e1, st1)"
      by (cases "run_loop be ns num k totalCalls [0..<runs] st")
    from run_loop_untouched [OF rl Cons.prems(2) False] have u1: "untouched ns0 k0 st st1" .
    show ?thesis
    proof (cases e1)
      case (Some err)
      with Cons.prems(1) False rl have "st' = st1" by simp
      with u1 show ?thesis by simp
    next
      case None
      let ?st3 = "mark_complete (configKey ns k) st1"
      from Cons.prems(1) False rl None
      have tl: "topk_loop be ns num runs totalCalls ks ?st3 = (e, st')"
        by simp
      have u3: "untouched ns0 k0 st1 ?st3"
        using u1 by (simp add: untouched_def mark_complete_def Let_def set_add_set)
      then have "configKey ns0 k0 \<in> set (completedSet ?st3)" by (simp add: untouched_def)
      from Cons.IH [OF tl this] have "untouched ns0 k0 ?st3 st'" .
      with u1 u3 show ?thesis by (blast intro: untouched_trans)
    qed
  qed
qed

lemma namespace_loop_untouched:
  "namespace_loop be num runs totalCalls ks nss st = (e, st') \<Longrightarrow>
   configKey ns0 k0 \<in> set (completedSet st) \<Longrightarrow> untouched ns0 k0 st st'"
proof (induction nss arbitrary: st)
  case Nil
  then show ?case by (simp add: untouched_refl)
next
  case (Cons ns nss)
  obtain e1 st1 where tl: "topk_loop be ns num runs totalCalls ks st = (e1, st1)"
    by (cases "topk_loop be ns num runs totalCalls ks st")
  from topk_loop_untouched [OF tl Cons.prems(2)] have u1: "untouched ns0 k0 st st1" .
  show ?case
  proof (cases e1)
    case (Some err)
    with Cons.prems(1) tl have "st' = st1" by simp
    with u1 show ?thesis by simp
  next
    case None
    with Cons.prems(1) tl have "namespace_loop be num runs totalCalls ks nss st1 = (e, st')" by simp
    moreover from u1 have "configKey ns0 k0 \<in> set (completedSet st1)" by (simp add: untouched_def)
    ultimately have "untouched ns0 k0 st1 st'" by (rule Cons.IH)
    with u1 show ?thesis by (blast intro: untouched_trans)
  qed
qed

lemma summary_topk_loop_map:
  "summary_topk_loop rs ns ks acc = Inr ss \<Longrightarrow>
     map Inr ss = map Inr acc @ map (\<lambda>k. summarize (filter (\<lambda>r. namespace r = ns \<and> top_k r = k) rs)) ks"
proof (induction ks arbitrary: acc)
  case Nil
  then show ?case by simp
next
  case (Cons k ks)
  then show ?case
    by (auto simp: Let_def split: sum.splits)
qed

lemma summary_loop_map:
  "summary_loop rs ks nss acc = Inr ss \<Longrightarrow>
     map Inr ss = map Inr acc @
       map (\<lambda>(ns, k). summarize (filter (\<lambda>r. namespace r = ns \<and> top_k r = k) rs)) (List.product nss ks)"
proof (induction nss arbitrary: acc)
  case Nil
  then show ?case by simp
next
  case (Cons ns nss)
  then obtain acc' where a: "summary_topk_loop rs ns ks acc = Inr acc'"
    and b: "summary_loop rs ks nss acc' = Inr ss"
    by (auto split: sum.splits)
  from Cons.IH [OF b] summary_topk_loop_map [OF a] show ?case
    by (simp add: comp_def)
qed

lemma isRetryable_iff: "isRetryable status \<longleftrightarrow> (\<exists>s. status = Some s \<and> 500 \<le> s)"
  by (cases status) (simp_all add: isRetryable_def)

lemma recall_attempts_resolved:
  "be (length (probe_calls st)) ns num k = Resolved result latency \<Longrightarrow>
   recall_attempts be ns num k attempt st
     = (Inr (result, latency), st\<lparr>probe_calls := probe_calls st @ [(ns, k)]\<rparr>)"
  by (subst recall_attempts.simps) simp

lemma recall_attempts_fatal:
  "be (length (probe_calls st)) ns num k = Rejected status \<Longrightarrow>
   \<not> (isRetryable status \<and> attempt < MAX_RETRIES) \<Longrightarrow>
   recall_attempts be ns num k attempt st
     = (Inl (BackendError status), st\<lparr>probe_calls := probe_calls st @ [(ns, k)]\<rparr>)"
  by (subst recall_attempts.simps) auto

lemma recall_attempts_retry:
  "be (length (probe_calls st)) ns num k = Rejected status \<Longrightarrow>
   isRetryable status \<Longrightarrow> attempt < MAX_RETRIES \<Longrightarrow>
   recall_attempts be ns num k attempt st
     = recall_attempts be ns num k (attempt + 1)
         (st\<lparr>probe_calls := probe_calls st @ [(ns, k)],
             sleeps := sleeps st @ [backoff (attempt + 1)]\<rparr>)"
  by (subst recall_attempts.simps) (simp add: backoff_def)

lemma upt_shift_Cons: "j > 0 \<Longrightarrow> [a + 1..<a + j + 1] = (a + 1) # [a + 2..<a + j + 1]"
  by (simp add: upt_conv_Cons)

lemma recall_attempts_fail_then:
  assumes "\<forall>i<j. \<exists>s\<ge>500. be (length (probe_calls st) + i) ns num k = Rejected (Some s)"
    and "attempt + j \<le> MAX_RETRIES"
  shows "recall_attempts be ns num k attempt st
     = recall_attempts be ns num k (attempt + j)
         (st\<lparr>probe_calls := probe_calls st @ replicate j (ns, k),
             sleeps := sleeps st @ map backoff [attempt + 1..<attempt + j + 1]\<rparr>)"
  using assms
proof (induction j arbitrary: attempt st)
  case 0
  then show ?case by simp
next
  case (Suc j)
  from Suc.prems(1) obtain s where s: "500 \<le> s"
    "be (length (probe_calls st)) ns num k = Rejected (Some s)"
    by force
  let ?st1 = "st\<lparr>probe_calls := probe_calls st @ [(ns, k)],
             sleeps := sleeps st @ [backoff (attempt + 1)]\<rparr>"
  have step: "recall_attempts be ns num k attempt st = recall_attempts be ns num k (attempt + 1) ?st1"
  proof (rule recall_attempts_retry [where status = "Some s"])
    show "be (length (probe_calls st)) ns num k = Rejected (Some s)" by (rule s(2))
    show "isRetryable (Some s)" using s(1) by (simp add: isRetryable_iff)
    show "attempt < MAX_RETRIES" using Suc.prems(2) by simp
  qed
  have "\<forall>i<j. \<exists>s\<ge>500. be (length (probe_calls ?st1) + i) ns num k = Rejected (Some s)"
  proof (intro allI impI)
    fix i assume "i < j"
    then have "Suc i < Suc j" by simp
    with Suc.prems(1) have "\<exists>s\<ge>500. be (length (probe_calls st) + Suc i) ns num k = Rejected (Some s)"
      by blast
    then show "\<exists>s\<ge>500. be (length (probe_calls ?st1) + i) ns num k = Rejected (Some s)"
      by simp
  qed
  moreover have "(attempt + 1) + j \<le> MAX_RETRIES" using Suc.prems(2) by simp
  ultimately have "recall_attempts be ns num k (attempt + 1) ?st1
     = recall_attempts be ns num k ((attempt + 1) + j)
         (?st1\<lparr>probe_calls := probe_calls ?st1 @ replicate j (ns, k),
             sleeps := sleeps ?st1 @ map backoff [(attempt + 1) + 1..<(attempt + 1) + j + 1]\<rparr>)"
    by (rule Suc.IH)
  moreover have "[attempt + 1..<attempt + Suc j + 1] = (attempt + 1) # [attempt + 1 + 1..<attempt + 1 + j + 1]"
    by (simp add: upt_conv_Cons)
  ultimately show ?case
    using step by (simp add: replicate_app_Cons_same)
qed

section \<open>Claims about the retry loop\<close>

text \<open>
  Claim C4. When the recall call fails with a retryable error (status at least 500) on its
  first \<open>j\<close> attempts, \<open>j \<le> MAX_RETRIES\<close>, and then succeeds, the retry loop returns the
  success value after \<open>j + 1\<close> calls and exactly \<open>j\<close> backoff suspensions, the one before
  retry number \<open>attempt\<close> lasting \<open>RETRY_BASE_MS * 2 ^ (attempt - 1)\<close>. The instance
  that follows it is the case of two failures with status 503: two suspensions, of
  \<open>RETRY_BASE_MS\<close> and \<open>2 * RETRY_BASE_MS\<close>.
\<close>

theorem retry_then_success:
  assumes "j \<le> MAX_RETRIES"
    and "\<forall>i<j. \<exists>s\<ge>500. be (length (probe_calls st) + i) ns num k = Rejected (Some s)"
    and "be (length (probe_calls st) + j) ns num k = Resolved result latency"
  shows "recall_attempts be ns num k 0 st
     = (Inr (result, latency),
        st\<lparr>probe_calls := probe_calls st @ replicate (j + 1) (ns, k),
           sleeps := sleeps st @ map (\<lambda>attempt. RETRY_BASE_MS * 2 ^ (attempt - 1)) [1..<j + 1]\<rparr>)"
proof -
  let ?st1 = "st\<lparr>probe_calls := probe_calls st @ replicate j (ns, k),
             sleeps := sleeps st @ map backoff [0 + 1..<0 + j + 1]\<rparr>"
  have "recall_attempts be ns num k 0 st = recall_attempts be ns num k (0 + j) ?st1"
    using assms(1,2) recall_attempts_fail_then [where be = be and st = st and attempt = 0 and j = j]
    by simp
  also have "\<dots> = (Inr (result, latency), ?st1\<lparr>probe_calls := probe_calls ?st1 @ [(ns, k)]\<rparr>)"
    using assms(3)
      recall_attempts_resolved [where be = be and st = "?st1" and result = result and latency = latency]
    by simp
  finally show ?thesis
    by (simp add: replicate_append_same backoff_def [abs_def])
qed

theorem retry_then_success_witness:
  "2 \<le> MAX_RETRIES
   \<and> twice_503 (length (probe_calls fresh) + 0) ''wiki-openai'' 20 10 = Rejected (Some 503)
   \<and> twice_503 (length (probe_calls fresh) + 1) ''wiki-openai'' 20 10 = Rejected (Some 503)
   \<and> twice_503 (length (probe_calls fresh) + 2) ''wiki-openai'' 20 10 = Resolved sample_response 42
   \<and> recall_attempts twice_503 ''wiki-openai'' 20 10 0 fresh
       = (Inr (sample_response, 42),
          fresh\<lparr>probe_calls := [(''wiki-openai'', 10), (''wiki-openai'', 10), (''wiki-openai'', 10)],
                sleeps := [RETRY_BASE_MS, 2 * RETRY_BASE_MS]\<rparr>)"
proof -
  have a: "2 \<le> MAX_RETRIES" by (simp add: MAX_RETRIES_def)
  have b: "\<forall>i<2. \<exists>s\<ge>500. twice_503 (length (probe_calls fresh) + i) ''wiki-openai'' 20 10 = Rejected (Some s)"
    by (simp add: twice_503_def fresh_def)
  have c: "twice_503 (length (probe_calls fresh) + 2) ''wiki-openai'' 20 10 = Resolved sample_response 42"
    by (simp add: twice_503_def fresh_def)
  have u: "map (\<lambda>attempt. RETRY_BASE_MS * 2 ^ (attempt - 1)) [1..<2 + 1] = [RETRY_BASE_MS, 2 * RETRY_BASE_MS]"
    by (simp add: upt_rec)
  have r: "replicate (2 + 1) (''wiki-openai'', 10 :: nat) = [(''wiki-openai'', 10), (''wiki-openai'', 10), (''wiki-openai'', 10)]"
    by (simp add: numeral_eq_Suc)
  have "recall_attempts twice_503 ''wiki-openai'' 20 10 0 fresh
       = (Inr (sample_response, 42),
          fresh\<lparr>probe_calls := probe_calls fresh @ [(''wiki-openai'', 10), (''wiki-openai'', 10), (''wiki-openai'', 10)],
                sleeps := sleeps fresh @ [RETRY_BASE_MS, 2 * RETRY_BASE_MS]\<rparr>)"
    using retry_then_success [where j = 2 and be = twice_503 and st = fresh and ns = "''wiki-openai''"
        and num = 20 and k = 10 and result = sample_response and latency = 42, OF a b c]
    by (simp only: u r)
  moreover have "twice_503 (length (probe_calls fresh) + 0) ''wiki-openai'' 20 10 = Rejected (Some 503)"
    "twice_503 (length (probe_calls fresh) + 1) ''wiki-openai'' 20 10 = Rejected (Some 503)"
    by (simp_all add: twice_503_def fresh_def)
  ultimately show ?thesis
    using a c by (simp add: fresh_def)
qed

text \<open>
  Claim C3, as stated, fails on status 429: the classification of the recall benchmark is
  \<open>err.status !== undefined && err.status >= 500\<close>, so a rejection with status 429 is
  rethrown at once, after one call and no suspension.
\<close>

theorem retry_429_counterexample:
  "((429::nat) \<ge> 500 \<or> (429::nat) = 429) \<and> \<not> isRetryable (Some 429)
   \<and> recall_attempts (always_status 429) ''wiki-openai'' 20 10 0 fresh
       = (Inl (BackendError (Some 429)), fresh\<lparr>probe_calls := [(''wiki-openai'', 10)]\<rparr>)
   \<and> sleeps (snd (recall_attempts (always_status 429) ''wiki-openai'' 20 10 0 fresh)) = []"
  by (simp add: recall_attempts.simps always_status_def isRetryable_def fresh_def)

text \<open>
  Claim C3, amended. An error of the recall call is retryable if and only if it carries a
  status that is at least 500 (429 is not retryable). A non-retryable error propagates
  immediately, after one call and no suspension; and when the first \<open>MAX_RETRIES\<close> calls
  fail with retryable errors, the error of the next call propagates, after
  \<open>MAX_RETRIES + 1\<close> calls and \<open>MAX_RETRIES\<close> suspensions.
\<close>

theorem retry_classification:
  "(isRetryable status \<longleftrightarrow> (\<exists>s. status = Some s \<and> 500 \<le> s))
   \<and> (\<not> isRetryable status \<and> be (length (probe_calls st)) ns num k = Rejected status \<longrightarrow>
        recall_attempts be ns num k 0 st
          = (Inl (BackendError status), st\<lparr>probe_calls := probe_calls st @ [(ns, k)]\<rparr>))
   \<and> ((\<forall>i<MAX_RETRIES. \<exists>s\<ge>500. be (length (probe_calls st) + i) ns num k = Rejected (Some s))
        \<and> be (length (probe_calls st) + MAX_RETRIES) ns num k = Rejected status \<longrightarrow>
        recall_attempts be ns num k 0 st
          = (Inl (BackendError status),
             st\<lparr>probe_calls := probe_calls st @ replicate (MAX_RETRIES + 1) (ns, k),
                sleeps := sleeps st @ map (\<lambda>attempt. RETRY_BASE_MS * 2 ^ (attempt - 1)) [1..<MAX_RETRIES + 1]\<rparr>))"
proof (intro conjI impI)
  show "isRetryable status \<longleftrightarrow> (\<exists>s. status = Some s \<and> 500 \<le> s)"
    by (rule isRetryable_iff)
next
  assume "\<not> isRetryable status \<and> be (length (probe_calls st)) ns num k = Rejected status"
  then show "recall_attempts be ns num k 0 st
          = (Inl (BackendError status), st\<lparr>probe_calls := probe_calls st @ [(ns, k)]\<rparr>)"
    using recall_attempts_fatal [where be = be and st = st and status = status and attempt = 0]
    by simp
next
  assume h: "(\<forall>i<MAX_RETRIES. \<exists>s\<ge>500. be (length (probe_calls st) + i) ns num k = Rejected (Some s))
        \<and> be (length (probe_calls st) + MAX_RETRIES) ns num k = Rejected status"
  let ?st1 = "st\<lparr>probe_calls := probe_calls st @ replicate MAX_RETRIES (ns, k),
             sleeps := sleeps st @ map backoff [0 + 1..<0 + MAX_RETRIES + 1]\<rparr>"
  have "recall_attempts be ns num k 0 st = recall_attempts be ns num k (0 + MAX_RETRIES) ?st1"
    using h recall_attempts_fail_then [where be = be and st = st and attempt = 0 and j = MAX_RETRIES]
    by simp
  also have "\<dots> = (Inl (BackendError status), ?st1\<lparr>probe_calls := probe_calls ?st1 @ [(ns, k)]\<rparr>)"
    using h recall_attempts_fatal [where be = be and st = "?st1" and status = status and attempt = "0 + MAX_RETRIES"]
    by simp
  finally show "recall_attempts be ns num k 0 st
          = (Inl (BackendError status),
             st\<lparr>probe_calls := probe_calls st @ replicate (MAX_RETRIES + 1) (ns, k),
                sleeps := sleeps st @ map (\<lambda>attempt. RETRY_BASE_MS * 2 ^ (attempt - 1)) [1..<MAX_RETRIES + 1]\<rparr>)"
    by (simp add: replicate_append_same backoff_def [abs_def])
qed

theorem retry_classification_witness:
  "isRetryable (Some 503) \<and> \<not> isRetryable (Some 404) \<and> \<not> isRetryable None
   \<and> always_status 404 (length (probe_calls fresh)) ''wiki-openai'' 20 10 = Rejected (Some 404)
   \<and> recall_attempts (always_status 404) ''wiki-openai'' 20 10 0 fresh
       = (Inl (BackendError (Some 404)), fresh\<lparr>probe_calls := [(''wiki-openai'', 10)]\<rparr>)
   \<and> always_status 503 (length (probe_calls fresh) + MAX_RETRIES) ''wiki-openai'' 20 10 = Rejected (Some 503)
   \<and> recall_attempts (always_status 503) ''wiki-openai'' 20 10 0 fresh
       = (Inl (BackendError (Some 503)),
          fresh\<lparr>probe_calls := replicate 4 (''wiki-openai'', 10), sleeps := [1000, 2000, 4000]\<rparr>)"
proof -
  have u: "map (\<lambda>attempt. RETRY_BASE_MS * 2 ^ (attempt - 1)) [1..<MAX_RETRIES + 1] = [1000, 2000, 4000]"
    by (simp add: MAX_RETRIES_def RETRY_BASE_MS_def upt_rec)
  have r: "replicate (MAX_RETRIES + 1) (''wiki-openai'', 10 :: nat) = replicate 4 (''wiki-openai'', 10)"
    by (simp add: MAX_RETRIES_def)
  have c1: "isRetryable (Some 503) \<and> \<not> isRetryable (Some 404) \<and> \<not> isRetryable None"
    using retry_classification [of "Some 503" "always_status 503" fresh "''wiki-openai''" 20 10]
      retry_classification [of "Some 404" "always_status 404" fresh "''wiki-openai''" 20 10]
      retry_classification [of None "always_status 404" fresh "''wiki-openai''" 20 10]
    by simp
  have h2: "always_status 404 (length (probe_calls fresh)) ''wiki-openai'' 20 10 = Rejected (Some 404)"
    by (simp add: always_status_def)
  have c2: "recall_attempts (always_status 404) ''wiki-openai'' 20 10 0 fresh
       = (Inl (BackendError (Some 404)), fresh\<lparr>probe_calls := probe_calls fresh @ [(''wiki-openai'', 10)]\<rparr>)"
    using retry_classification [of "Some 404" "always_status 404" fresh "''wiki-openai''" 20 10] c1 h2
    by blast
  have h3: "\<forall>i<MAX_RETRIES. \<exists>s\<ge>500.
         always_status 503 (length (probe_calls fresh) + i) ''wiki-openai'' 20 10 = Rejected (Some s)"
    by (simp add: always_status_def)
  have h3': "always_status 503 (length (probe_calls fresh) + MAX_RETRIES) ''wiki-openai'' 20 10 = Rejected (Some 503)"
    by (simp add: always_status_def)
  have "recall_attempts (always_status 503) ''wiki-openai'' 20 10 0 fresh
       = (Inl (BackendError (Some 503)),
          fresh\<lparr>probe_calls := probe_calls fresh @ replicate (MAX_RETRIES + 1) (''wiki-openai'', 10),
                sleeps := sleeps fresh @ map (\<lambda>attempt. RETRY_BASE_MS * 2 ^ (attempt - 1)) [1..<MAX_RETRIES + 1]\<rparr>)"
    using retry_classification [of "Some 503" "always_status 503" fresh "''wiki-openai''" 20 10] h3 h3'
    by blast
  then have c3: "recall_attempts (always_status 503) ''wiki-openai'' 20 10 0 fresh
       = (Inl (BackendError (Some 503)),
          fresh\<lparr>probe_calls := probe_calls fresh @ replicate 4 (''wiki-openai'', 10),
                sleeps := sleeps fresh @ [1000, 2000, 4000]\<rparr>)"
    by (simp only: u r)
  from c1 h2 c2 h3' c3 show ?thesis
    by (simp add: fresh_def)
qed

lemma summarize_Nil: "summarize [] = Inl TypeError"
  by (simp add: summarize_def split: prod.splits)

lemma summarize_Cons:
  "\<exists>s. summarize (r # rs) = Inr s \<and> summary_namespace s = namespace r \<and> summary_top_k s = top_k r
     \<and> summary_runs s = length (r # rs)"
  by (simp add: summarize_def Let_def split: prod.splits)

section \<open>Claims about resuming from a checkpoint\<close>

text \<open>
  Claim C1. When the key \<open>namespace:top_k\<close> of a configuration is in the completed set of
  the loaded checkpoint, the run issues no recall call for that configuration, whatever the
  backend answers and however the run ends; and when the run completes, the summary at
  every position of that configuration in the sweep is \<open>summarize\<close> of the runs the
  checkpoint stored for it.
\<close>

theorem completed_config_skipped:
  assumes "configKey ns k \<in> set (completedConfigs checkpoint)"
  shows "(ns, k) \<notin> set (probe_calls (final (runRecallBenchmark options be checkpoint)))
     \<and> (\<forall>res. outcome (runRecallBenchmark options be checkpoint) = Inr res \<longrightarrow>
          length (summaries res) = length (List.product (namespacesOf options) (topKValuesOf options))
          \<and> (\<forall>p < length (summaries res).
                List.product (namespacesOf options) (topKValuesOf options) ! p = (ns, k) \<longrightarrow>
                summarize (filter (\<lambda>r. namespace r = ns \<and> top_k r = k) (raw_runs checkpoint))
                  = Inr (summaries res ! p)))"
proof -
  let ?runs = "runsOf options"
  let ?num = "numOf options"
  let ?ks = "topKValuesOf options"
  let ?nss = "namespacesOf options"
  let ?totalCalls = "length ?nss * length ?ks * ?runs"
  let ?st0 = "\<lparr>rawRuns = raw_runs checkpoint,
                 completedSet = new_Set (completedConfigs checkpoint),
                 completed = length (completedConfigs checkpoint) * ?runs,
                 probe_calls = [], sleeps = [], saved = []\<rparr>"
  obtain e st where nl: "namespace_loop be ?num ?runs ?totalCalls ?ks ?nss ?st0 = (e, st)"
    by (cases "namespace_loop be ?num ?runs ?totalCalls ?ks ?nss ?st0")
  have "configKey ns k \<in> set (completedSet ?st0)"
    using assms by (simp add: new_Set_set)
  from namespace_loop_untouched [OF nl this]
  have nc: "(ns, k) \<notin> set (probe_calls st)"
    and fl: "filter (\<lambda>r. namespace r = ns \<and> top_k r = k) (rawRuns st)
              = filter (\<lambda>r. namespace r = ns \<and> top_k r = k) (raw_runs checkpoint)"
    by (simp_all add: untouched_def)
  have run: "runRecallBenchmark options be checkpoint =
     (case e of
        Some err \<Rightarrow> \<lparr>outcome = Inl err, final = st, removed = False\<rparr>
      | None \<Rightarrow>
          (case summary_loop (rawRuns st) ?ks ?nss [] of
             Inl err \<Rightarrow> \<lparr>outcome = Inl err, final = st, removed = False\<rparr>
           | Inr ss \<Rightarrow>
               \<lparr>outcome = Inr \<lparr>meta_num = ?num, meta_runs_per_config = ?runs,
                               meta_top_k_values = ?ks, meta_namespaces = ?nss,
                               meta_total_calls = ?totalCalls,
                               result_raw_runs = rawRuns st, summaries = ss\<rparr>,
                final = st, removed = True\<rparr>))"
    using nl
    by (simp add: runRecallBenchmark_def Let_def)
  have fin: "final (runRecallBenchmark options be checkpoint) = st"
    by (simp add: run split: option.splits sum.splits)
  have "length (summaries res) = length (List.product ?nss ?ks)
          \<and> (\<forall>p < length (summaries res).
                List.product ?nss ?ks ! p = (ns, k) \<longrightarrow>
                summarize (filter (\<lambda>r. namespace r = ns \<and> top_k r = k) (raw_runs checkpoint))
                  = Inr (summaries res ! p))"
    if ok: "outcome (runRecallBenchmark options be checkpoint) = Inr res" for res
  proof -
    from ok have sl: "summary_loop (rawRuns st) ?ks ?nss [] = Inr (summaries res)"
      by (auto simp: run split: option.splits sum.splits)
    let ?f = "\<lambda>(ns, k). summarize (filter (\<lambda>r. namespace r = ns \<and> top_k r = k) (rawRuns st))"
    from summary_loop_map [OF sl]
    have m: "map Inr (summaries res) = map ?f (List.product ?nss ?ks)"
      by simp
    then have "length (map Inr (summaries res) :: (js_error + ConfigSummary) list)
                 = length (map ?f (List.product ?nss ?ks))"
      by (rule arg_cong)
    then have len: "length (summaries res) = length (List.product ?nss ?ks)"
      by (simp only: length_map)
    have "summarize (filter (\<lambda>r. namespace r = ns \<and> top_k r = k) (raw_runs checkpoint))
                  = Inr (summaries res ! p)"
      if p: "p < length (summaries res)" and at: "List.product ?nss ?ks ! p = (ns, k)" for p
    proof -
      have "Inr (summaries res ! p) = map Inr (summaries res) ! p"
        using p by simp
      also have "\<dots> = map ?f (List.product ?nss ?ks) ! p"
        by (simp only: m)
      also have "\<dots> = ?f (List.product ?nss ?ks ! p)"
        using p len by simp
      also have "\<dots> = summarize (filter (\<lambda>r. namespace r = ns \<and> top_k r = k) (rawRuns st))"
        by (simp add: at)
      finally show ?thesis by (simp add: fl)
    qed
    with len show ?thesis by blast
  qed
  with nc fin show ?thesis
    by simp
qed

lemma key10: "configKey ''wiki-openai'' 10 = ''wiki-openai:10''"
  by (simp add: configKey_def string_of_nat.simps digit_char_def)

lemma key5: "configKey ''wiki-openai'' 5 = ''wiki-openai:5''"
  by (simp add: configKey_def string_of_nat.simps digit_char_def)

lemma key100: "configKey ''wiki-openai'' 100 = ''wiki-openai:100''"
  by (simp add: configKey_def string_of_nat.simps digit_char_def)

lemma steady_attempt:
  "recall_attempts steady ns num k attempt st
     = (Inr (sample_response, 42), st\<lparr>probe_calls := probe_calls st @ [(ns, k)]\<rparr>)"
  by (subst recall_attempts.simps) (simp add: steady_def)

lemma upt_0_1: "[0..<1] = [0::nat]"
  by (simp add: upt_rec)

lemmas run_eval = runRecallBenchmark_def runsOf_def numOf_def topKValuesOf_def namespacesOf_def
  new_Set_def set_add_def Let_def steady_attempt push_run_def
  inter_call_delay_def mark_complete_def upt_0_1

lemma resume_final:
  "final (runRecallBenchmark resume_options steady stored_checkpoint) =
     \<lparr>rawRuns = [stored_run,
                 \<lparr>namespace = ''wiki-openai'', top_k = 10, run = 1,
                  avg_recall = res_avg_recall sample_response,
                  avg_ann_count = res_avg_ann_count sample_response,
                  avg_exhaustive_count = res_avg_exhaustive_count sample_response,
                  latency_ms = Math_round 42\<rparr>],
      completedSet = [''wiki-openai:5'', ''wiki-openai:10''],
      completed = 2,
      probe_calls = [(''wiki-openai'', 10)], sleeps = [], 
      saved = [\<lparr>raw_runs = [stored_run,
                 \<lparr>namespace = ''wiki-openai'', top_k = 10, run = 1,
                  avg_recall = res_avg_recall sample_response,
                  avg_ann_count = res_avg_ann_count sample_response,
                  avg_exhaustive_count = res_avg_exhaustive_count sample_response,
                  latency_ms = Math_round 42\<rparr>], completedConfigs = [''wiki-openai:5'', ''wiki-openai:10'']\<rparr>]\<rparr>"
  by (simp add: run_eval resume_options_def stored_checkpoint_def stored_run_def key10 key5 summarize_def
        split: prod.splits)

theorem completed_config_skipped_witness:
  "configKey ''wiki-openai'' 5 \<in> set (completedConfigs stored_checkpoint)
   \<and> probe_calls (final (runRecallBenchmark resume_options steady stored_checkpoint)) = [(''wiki-openai'', 10)]
   \<and> (''wiki-openai'', 5) \<notin> set (probe_calls (final (runRecallBenchmark resume_options steady stored_checkpoint)))
   \<and> \<not> isl (outcome (runRecallBenchmark resume_options steady stored_checkpoint))
   \<and> length (summaries (projr (outcome (runRecallBenchmark resume_options steady stored_checkpoint)))) = 2
   \<and> List.product (namespacesOf resume_options) (topKValuesOf resume_options) ! 0 = (''wiki-openai'', 5)
   \<and> summarize (filter (\<lambda>r. namespace r = ''wiki-openai'' \<and> top_k r = 5) (raw_runs stored_checkpoint))
        = Inr (summaries (projr (outcome (runRecallBenchmark resume_options steady stored_checkpoint))) ! 0)"
proof -
  let ?R = "runRecallBenchmark resume_options steady stored_checkpoint"
  have h: "configKey ''wiki-openai'' 5 \<in> set (completedConfigs stored_checkpoint)"
    by (simp add: stored_checkpoint_def key5)
  have calls: "probe_calls (final ?R) = [(''wiki-openai'', 10)]"
    by (simp add: resume_final)
  have ok: "\<not> isl (outcome ?R)"
    by (simp add: run_eval resume_options_def stored_checkpoint_def stored_run_def key10 key5
          summarize_def split: prod.splits)
  then obtain res where res: "outcome ?R = Inr res"
    by (cases "outcome ?R") auto
  have pr: "List.product (namespacesOf resume_options) (topKValuesOf resume_options) = [(''wiki-openai'', 5), (''wiki-openai'', 10)]"
    by (simp add: namespacesOf_def topKValuesOf_def resume_options_def)
  from completed_config_skipped [OF h, of resume_options steady] res
  have a: "(''wiki-openai'', 5) \<notin> set (probe_calls (final ?R))"
    and b: "length (summaries res) = length (List.product (namespacesOf resume_options) (topKValuesOf resume_options))"
    and c: "\<forall>p < length (summaries res).
                List.product (namespacesOf resume_options) (topKValuesOf resume_options) ! p = (''wiki-openai'', 5) \<longrightarrow>
                summarize (filter (\<lambda>r. namespace r = ''wiki-openai'' \<and> top_k r = 5) (raw_runs stored_checkpoint))
                  = Inr (summaries res ! p)"
    by blast+
  from b pr have len: "length (summaries res) = 2" by simp
  with c pr have "summarize (filter (\<lambda>r. namespace r = ''wiki-openai'' \<and> top_k r = 5) (raw_runs stored_checkpoint))
                  = Inr (summaries res ! 0)"
    by simp
  with h calls a ok len pr res show ?thesis by simp
qed

text \<open>
  Claim C10. \<open>summarize\<close> reads the namespace and \<open>top_k\<close> of \<open>runs[0]\<close> without a guard:
  on the empty list it throws, on a nonempty list it returns a summary carrying them. An
  execution reaches it with an empty list: an invocation with \<open>--runs 0\<close> on one \<open>top_k\<close>
  value marks the configuration complete with no run stored, writes the checkpoint and
  then fails in the summary loop, so that the checkpoint stays; a second invocation, with
  one run and a longer \<open>top_k\<close> list, resumes from it, skips the completed configuration,
  and the summary loop filters an empty list for it and throws.
\<close>

theorem summarize_empty_reachable:
  "summarize [] = Inl TypeError
   \<and> (\<forall>r rs. \<exists>s. summarize (r # rs) = Inr s
          \<and> summary_namespace s = namespace r \<and> summary_top_k s = top_k r)
   \<and> (let first = runRecallBenchmark zero_runs_options steady empty_checkpoint;
           c1 = last (saved (final first));
           second = runRecallBenchmark resume_options steady c1
       in saved (final first) \<noteq> [] \<and> \<not> removed first
          \<and> c1 = \<lparr>raw_runs = [], completedConfigs = [''wiki-openai:5'']\<rparr>
          \<and> topKValuesOf zero_runs_options \<noteq> topKValuesOf resume_options
          \<and> ''wiki-openai'' \<in> set (namespacesOf resume_options)
          \<and> 5 \<in> set (topKValuesOf resume_options)
          \<and> configKey ''wiki-openai'' 5 \<in> set (completedConfigs c1)
          \<and> filter (\<lambda>r. namespace r = ''wiki-openai'' \<and> top_k r = 5) (rawRuns (final second)) = []
          \<and> outcome second = Inl TypeError \<and> \<not> removed second)"
proof -
  have first: "runRecallBenchmark zero_runs_options steady empty_checkpoint
     = \<lparr>outcome = Inl TypeError,
        final = \<lparr>rawRuns = [], completedSet = [''wiki-openai:5''], completed = 0,
                  probe_calls = [], sleeps = [],
                  saved = [\<lparr>raw_runs = [], completedConfigs = [''wiki-openai:5'']\<rparr>]\<rparr>,
        removed = False\<rparr>"
    by (simp add: run_eval zero_runs_options_def empty_checkpoint_def key5 summarize_Nil)
  have second: "runRecallBenchmark resume_options steady \<lparr>raw_runs = [], completedConfigs = [''wiki-openai:5'']\<rparr>
     = \<lparr>outcome = Inl TypeError,
        final = \<lparr>rawRuns = [\<lparr>namespace = ''wiki-openai'', top_k = 10, run = 1,
                  avg_recall = res_avg_recall sample_response,
                  avg_ann_count = res_avg_ann_count sample_response,
                  avg_exhaustive_count = res_avg_exhaustive_count sample_response,
                  latency_ms = Math_round 42\<rparr>],
                  completedSet = [''wiki-openai:5'', ''wiki-openai:10''], completed = 2,
                  probe_calls = [(''wiki-openai'', 10)], sleeps = [],
                  saved = [\<lparr>raw_runs = [\<lparr>namespace = ''wiki-openai'', top_k = 10, run = 1,
                  avg_recall = res_avg_recall sample_response,
                  avg_ann_count = res_avg_ann_count sample_response,
                  avg_exhaustive_count = res_avg_exhaustive_count sample_response,
                  latency_ms = Math_round 42\<rparr>], completedConfigs = [''wiki-openai:5'', ''wiki-openai:10'']\<rparr>]\<rparr>,
        removed = False\<rparr>"
    by (simp add: run_eval resume_options_def key5 key10 summarize_Nil)
  have a: "summarize [] = Inl TypeError" by (rule summarize_Nil)
  have b: "\<forall>r rs. \<exists>s. summarize (r # rs) = Inr s
          \<and> summary_namespace s = namespace r \<and> summary_top_k s = top_k r"
    using summarize_Cons by blast
  have c: "topKValuesOf zero_runs_options \<noteq> topKValuesOf resume_options"
    "''wiki-openai'' \<in> set (namespacesOf resume_options)"
    "5 \<in> set (topKValuesOf resume_options)"
    by (simp_all add: topKValuesOf_def namespacesOf_def zero_runs_options_def resume_options_def)
  from a b c show ?thesis
    by (simp add: first second Let_def key5)
qed

section \<open>When the summary loop cannot fail\<close>

lemma digit_val_digit_char: "d < 10 \<Longrightarrow> digit_val (digit_char d) = d"
proof -
  assume "d < 10"
  then have "d = 0 \<or> d = 1 \<or> d = 2 \<or> d = 3 \<or> d = 4 \<or> d = 5 \<or> d = 6 \<or> d = 7 \<or> d = 8 \<or> d = 9"
    by arith
  then show ?thesis
    by (elim disjE) (simp_all add: digit_val_def digit_char_def)
qed

lemma digit_char_not_colon: "d < 10 \<Longrightarrow> digit_char d \<noteq> CHR '':''"
proof -
  assume "d < 10"
  then have "d = 0 \<or> d = 1 \<or> d = 2 \<or> d = 3 \<or> d = 4 \<or> d = 5 \<or> d = 6 \<or> d = 7 \<or> d = 8 \<or> d = 9"
    by arith
  then show ?thesis
    by (elim disjE) (simp_all add: digit_char_def)
qed

lemma digits_value_snoc: "digits_value (ds @ [c]) = 10 * digits_value ds + digit_val c"
  by (simp add: digits_value_def)

lemma digits_value_string_of_nat: "digits_value (string_of_nat n) = n"
proof (induction n rule: string_of_nat.induct)
  case (1 n)
  show ?case
  proof (cases "n < 10")
    case True
    then show ?thesis
      by (subst string_of_nat.simps) (simp add: digits_value_def digit_val_digit_char)
  next
    case False
    with "1.IH" have "digits_value (string_of_nat (n div 10)) = n div 10" by simp
    with False show ?thesis
      by (subst string_of_nat.simps) (simp add: digits_value_snoc digit_val_digit_char)
  qed
qed

lemma string_of_nat_inj: "string_of_nat m = string_of_nat n \<Longrightarrow> m = n"
  by (metis digits_value_string_of_nat)

lemma string_of_nat_no_colon: "CHR '':'' \<notin> set (string_of_nat n)"
proof (induction n rule: string_of_nat.induct)
  case (1 n)
  show ?case
  proof (cases "n < 10")
    case True
    then show ?thesis
      using digit_char_not_colon [of n] by (subst string_of_nat.simps) auto
  next
    case False
    with "1.IH" have "CHR '':'' \<notin> set (string_of_nat (n div 10))" by simp
    moreover have "digit_char (n mod 10) \<noteq> CHR '':''" by (rule digit_char_not_colon) simp
    ultimately show ?thesis
      using False by (subst string_of_nat.simps) auto
  qed
qed

lemma split_at_last:
  assumes "xs @ c # ys = xs' @ c # ys'" and "c \<notin> set ys" and "c \<notin> set ys'"
  shows "xs = xs' \<and> ys = ys'"
proof -
  have tw: "takeWhile (\<lambda>x. x \<noteq> c) (rev (as @ c # bs)) = rev bs" if "c \<notin> set bs" for as bs
  proof -
    have "takeWhile (\<lambda>x. x \<noteq> c) (rev bs @ c # rev as) = rev bs @ takeWhile (\<lambda>x. x \<noteq> c) (c # rev as)"
      using that by (intro takeWhile_append2) auto
    then show ?thesis by simp
  qed
  have "takeWhile (\<lambda>x. x \<noteq> c) (rev (xs @ c # ys)) = rev ys"
    by (rule tw [OF assms(2)])
  moreover have "takeWhile (\<lambda>x. x \<noteq> c) (rev (xs' @ c # ys')) = rev ys'"
    by (rule tw [OF assms(3)])
  ultimately have "rev ys = rev ys'" using assms(1) by simp
  then have "ys = ys'" by simp
  with assms(1) show ?thesis by simp
qed

lemma configKey_inj: "configKey ns k = configKey ns' k' \<Longrightarrow> ns = ns' \<and> k = k'"
proof -
  assume "configKey ns k = configKey ns' k'"
  then have "ns @ CHR '':'' # string_of_nat k = ns' @ CHR '':'' # string_of_nat k'"
    by (simp add: configKey_def)
  from split_at_last [OF this string_of_nat_no_colon string_of_nat_no_colon]
  show ?thesis by (auto dest: string_of_nat_inj)
qed

lemma summarize_nonempty: "rs \<noteq> [] \<Longrightarrow> \<exists>s. summarize rs = Inr s"
  using summarize_Cons by (cases rs) blast+

lemma run_loop_resolves:
  assumes be: "\<forall>c ns num k. \<exists>result latency. be c ns num k = Resolved result latency"
  shows "\<exists>st'. run_loop be ns num k totalCalls rs st = (None, st')
           \<and> (rs \<noteq> [] \<longrightarrow> filter (\<lambda>r. namespace r = ns \<and> top_k r = k) (rawRuns st') \<noteq> [])"
proof (induction rs arbitrary: st)
  case Nil
  show ?case by simp
next
  case (Cons r rs)
  let ?st0 = "st\<lparr>completed := completed st + 1\<rparr>"
  from be obtain result latency where
    res: "be (length (probe_calls ?st0)) ns num k = Resolved result latency"
    by blast
  let ?st1 = "?st0\<lparr>probe_calls := probe_calls ?st0 @ [(ns, k)]\<rparr>"
  let ?st2 = "inter_call_delay totalCalls (push_run ns k r result latency ?st1)"
  have ra: "recall_attempts be ns num k 0 ?st0 = (Inr (result, latency), ?st1)"
    using res recall_attempts_resolved [where be = be and st = "?st0" and result = result and latency = latency]
    by simp
  from Cons.IH [of ?st2] obtain st' where
    l: "run_loop be ns num k totalCalls rs ?st2 = (None, st')"
    by blast
  from run_loop_frame [OF l] obtain new where
    g: "rawRuns st' = rawRuns ?st2 @ new" by blast
  from push_run_rawRuns [of ns k r result latency ?st1] obtain x where
    x: "rawRuns (push_run ns k r result latency ?st1) = rawRuns ?st1 @ [x]"
       "namespace x = ns" "top_k x = k"
    by blast
  have "x \<in> set (rawRuns st')" using g x(1) by simp
  with x(2,3) have "filter (\<lambda>r. namespace r = ns \<and> top_k r = k) (rawRuns st') \<noteq> []"
    by (auto simp: filter_empty_conv)
  moreover have "run_loop be ns num k totalCalls (r # rs) st = (None, st')"
    using ra l by simp
  ultimately show ?case by blast
qed

lemma stored_for_completed_grow:
  assumes "stored_for_completed S st" and "completedSet st' = completedSet st"
    and "rawRuns st' = rawRuns st @ new"
  shows "stored_for_completed S st'"
  using assms by (auto simp: stored_for_completed_def)

lemma stored_for_completed_mark:
  assumes "stored_for_completed S st"
    and "filter (\<lambda>r. namespace r = ns \<and> top_k r = k) (rawRuns st) \<noteq> []"
  shows "stored_for_completed S (mark_complete (configKey ns k) st)"
  unfolding stored_for_completed_def
proof (intro allI impI)
  fix ns' k'
  assume a: "(ns', k') \<in> S \<and> configKey ns' k' \<in> set (completedSet (mark_complete (configKey ns k) st))"
  then have "configKey ns' k' = configKey ns k \<or> configKey ns' k' \<in> set (completedSet st)"
    by (auto simp: mark_complete_def Let_def set_add_set)
  then have "filter (\<lambda>r. namespace r = ns' \<and> top_k r = k') (rawRuns st) \<noteq> []"
  proof
    assume "configKey ns' k' = configKey ns k"
    then have "ns' = ns \<and> k' = k" by (rule configKey_inj)
    with assms(2) show ?thesis by simp
  next
    assume "configKey ns' k' \<in> set (completedSet st)"
    with a assms(1) show ?thesis by (simp add: stored_for_completed_def)
  qed
  then show "filter (\<lambda>r. namespace r = ns' \<and> top_k r = k') (rawRuns (mark_complete (configKey ns k) st)) \<noteq> []"
    by (simp add: mark_complete_def Let_def)
qed

lemma topk_loop_resolves:
  assumes be: "\<forall>c ns num k. \<exists>result latency. be c ns num k = Resolved result latency"
    and runs: "0 < runs"
  shows "stored_for_completed S st \<Longrightarrow>
         \<exists>st'. topk_loop be ns num runs totalCalls ks st = (None, st')
           \<and> stored_for_completed S st'
           \<and> set (completedSet st) \<subseteq> set (completedSet st')
           \<and> (\<forall>k \<in> set ks. configKey ns k \<in> set (completedSet st'))"
proof (induction ks arbitrary: st)
  case Nil
  then show ?case by simp
next
  case (Cons k ks)
  show ?case
  proof (cases "configKey ns k \<in> set (completedSet st)")
    case True
    from Cons.IH [OF Cons.prems] obtain st' where
      r: "topk_loop be ns num runs totalCalls ks st = (None, st')"
         "stored_for_completed S st'" "set (completedSet st) \<subseteq> set (completedSet st')"
         "\<forall>k \<in> set ks. configKey ns k \<in> set (completedSet st')"
      by blast
    from True r(3) have "configKey ns k \<in> set (completedSet st')" by blast
    with True r show ?thesis by simp
  next
    case False
    from runs have ne: "[0..<runs] \<noteq> []" by simp
    from run_loop_resolves [OF be, of ns num k totalCalls "[0..<runs]" st] ne obtain st1 where
      l: "run_loop be ns num k totalCalls [0..<runs] st = (None, st1)"
      and f: "filter (\<lambda>r. namespace r = ns \<and> top_k r = k) (rawRuns st1) \<noteq> []"
      by blast
    from run_loop_frame [OF l] obtain new where
      fr: "completedSet st1 = completedSet st" "rawRuns st1 = rawRuns st @ new"
      by blast
    have "stored_for_completed S st1"
      by (rule stored_for_completed_grow [OF Cons.prems fr])
    then have m: "stored_for_completed S (mark_complete (configKey ns k) st1)"
      using f by (rule stored_for_completed_mark)
    from Cons.IH [OF m] obtain st' where
      r: "topk_loop be ns num runs totalCalls ks (mark_complete (configKey ns k) st1) = (None, st')"
         "stored_for_completed S st'"
         "set (completedSet (mark_complete (configKey ns k) st1)) \<subseteq> set (completedSet st')"
         "\<forall>k \<in> set ks. configKey ns k \<in> set (completedSet st')"
      by blast
    have cs: "set (completedSet (mark_complete (configKey ns k) st1))
                = insert (configKey ns k) (set (completedSet st))"
      by (simp add: mark_complete_def Let_def set_add_set fr(1))
    have "topk_loop be ns num runs totalCalls (k # ks) st = (None, st')"
      using False l r(1) by simp
    moreover have "set (completedSet st) \<subseteq> set (completedSet st')"
      using r(3) cs by blast
    moreover have "\<forall>k' \<in> set (k # ks). configKey ns k' \<in> set (completedSet st')"
      using r(3,4) cs by auto
    ultimately show ?thesis using r(2) by blast
  qed
qed

lemma namespace_loop_resolves:
  assumes be: "\<forall>c ns num k. \<exists>result latency. be c ns num k = Resolved result latency"
    and runs: "0 < runs"
  shows "stored_for_completed S st \<Longrightarrow>
         \<exists>st'. namespace_loop be num runs totalCalls ks nss st = (None, st')
           \<and> stored_for_completed S st'
           \<and> set (completedSet st) \<subseteq> set (completedSet st')
           \<and> (\<forall>ns \<in> set nss. \<forall>k \<in> set ks. configKey ns k \<in> set (completedSet st'))"
proof (induction nss arbitrary: st)
  case Nil
  then show ?case by simp
next
  case (Cons ns nss)
  from topk_loop_resolves [OF be runs Cons.prems, of ns num totalCalls ks] obtain st1 where
    t: "topk_loop be ns num runs totalCalls ks st = (None, st1)"
       "stored_for_completed S st1" "set (completedSet st) \<subseteq> set (completedSet st1)"
       "\<forall>k \<in> set ks. configKey ns k \<in> set (completedSet st1)"
    by blast
  from Cons.IH [OF t(2)] obtain st' where
    r: "namespace_loop be num runs totalCalls ks nss st1 = (None, st')"
       "stored_for_completed S st'" "set (completedSet st1) \<subseteq> set (completedSet st')"
       "\<forall>ns \<in> set nss. \<forall>k \<in> set ks. configKey ns k \<in> set (completedSet st')"
    by blast
  have "namespace_loop be num runs totalCalls ks (ns # nss) st = (None, st')"
    using t(1) r(1) by simp
  moreover have "set (completedSet st) \<subseteq> set (completedSet st')"
    using t(3) r(3) by blast
  moreover have "\<forall>ns' \<in> set (ns # nss). \<forall>k \<in> set ks. configKey ns' k \<in> set (completedSet st')"
    using t(4) r(3,4) by auto
  ultimately show ?case using r(2) by blast
qed

lemma summary_topk_loop_resolves:
  "\<forall>k \<in> set ks. filter (\<lambda>r. namespace r = ns \<and> top_k r = k) rs \<noteq> [] \<Longrightarrow>
   \<exists>ss. summary_topk_loop rs ns ks acc = Inr ss"
proof (induction ks arbitrary: acc)
  case Nil
  show ?case by simp
next
  case (Cons k ks)
  then have "filter (\<lambda>r. namespace r = ns \<and> top_k r = k) rs \<noteq> []" by simp
  from summarize_nonempty [OF this] obtain s where
    s: "summarize (filter (\<lambda>r. namespace r = ns \<and> top_k r = k) rs) = Inr s" by blast
  from Cons.prems have "\<forall>k \<in> set ks. filter (\<lambda>r. namespace r = ns \<and> top_k r = k) rs \<noteq> []" by simp
  from Cons.IH [OF this, of "acc @ [s]"] s show ?case by simp
qed

lemma summary_loop_resolves:
  "\<forall>ns \<in> set nss. \<forall>k \<in> set ks. filter (\<lambda>r. namespace r = ns \<and> top_k r = k) rs \<noteq> [] \<Longrightarrow>
   \<exists>ss. summary_loop rs ks nss acc = Inr ss"
proof (induction nss arbitrary: acc)
  case Nil
  show ?case by simp
next
  case (Cons ns nss)
  then have "\<forall>k \<in> set ks. filter (\<lambda>r. namespace r = ns \<and> top_k r = k) rs \<noteq> []" by simp
  from summary_topk_loop_resolves [OF this, of acc] obtain acc' where
    a: "summary_topk_loop rs ns ks acc = Inr acc'" by blast
  from Cons.prems have "\<forall>ns \<in> set nss. \<forall>k \<in> set ks. filter (\<lambda>r. namespace r = ns \<and> top_k r = k) rs \<noteq> []"
    by simp
  from Cons.IH [OF this, of acc'] a show ?case by simp
qed

text \<open>
  The summary loop meets an empty list only when a completed configuration of the sweep
  has no run stored, when the sweep makes no run, or when the backend fails: with at least
  one run per configuration, a backend that answers, and a checkpoint that stores a run
  for each of its completed configurations in the sweep, the run completes, whichever
  option lists the checkpoint was written under.
\<close>

lemma runRecallBenchmark_completes:
  assumes runs: "0 < runsOf options"
    and be: "\<forall>c ns num k. \<exists>result latency. be c ns num k = Resolved result latency"
    and stored: "\<forall>ns k. ns \<in> set (namespacesOf options) \<and> k \<in> set (topKValuesOf options)
                   \<and> configKey ns k \<in> set (completedConfigs checkpoint)
                 \<longrightarrow> filter (\<lambda>r. namespace r = ns \<and> top_k r = k) (raw_runs checkpoint) \<noteq> []"
  shows "\<exists>res. outcome (runRecallBenchmark options be checkpoint) = Inr res
               \<and> removed (runRecallBenchmark options be checkpoint)"
proof -
  let ?runs = "runsOf options"
  let ?num = "numOf options"
  let ?ks = "topKValuesOf options"
  let ?nss = "namespacesOf options"
  let ?totalCalls = "length ?nss * length ?ks * ?runs"
  let ?st0 = "\<lparr>rawRuns = raw_runs checkpoint,
                 completedSet = new_Set (completedConfigs checkpoint),
                 completed = length (completedConfigs checkpoint) * ?runs,
                 probe_calls = [], sleeps = [], saved = []\<rparr>"
  let ?S = "set ?nss \<times> set ?ks"
  have "stored_for_completed ?S ?st0"
    using stored by (simp add: stored_for_completed_def new_Set_set)
  from namespace_loop_resolves [OF be runs this, of ?num ?totalCalls ?ks ?nss] obtain st where
    l: "namespace_loop be ?num ?runs ?totalCalls ?ks ?nss ?st0 = (None, st)"
    and s: "stored_for_completed ?S st"
    and c: "\<forall>ns \<in> set ?nss. \<forall>k \<in> set ?ks. configKey ns k \<in> set (completedSet st)"
    by blast
  from s c have "\<forall>ns \<in> set ?nss. \<forall>k \<in> set ?ks.
      filter (\<lambda>r. namespace r = ns \<and> top_k r = k) (rawRuns st) \<noteq> []"
    by (simp add: stored_for_completed_def)
  from summary_loop_resolves [OF this, of "[]"] obtain ss where
    "summary_loop (rawRuns st) ?ks ?nss [] = Inr ss" by blast
  with l show ?thesis
    by (simp add: runRecallBenchmark_def Let_def)
qed

section \<open>Facts about the checkpoint store\<close>

lemma loadCheckpoint_absent: "loadCheckpoint parse Absent = Inr empty_loaded"
  by (simp add: loadCheckpoint_def existsSync_def)

lemma loadCheckpoint_unreadable: "loadCheckpoint parse Unreadable = Inr empty_loaded"
  by (simp add: loadCheckpoint_def existsSync_def loadCheckpoint_try_def readFileSync_def)

lemma loadCheckpoint_corrupt:
  "parse s = None \<Longrightarrow> loadCheckpoint parse (Content s) = Inr empty_loaded"
  by (simp add: loadCheckpoint_def existsSync_def loadCheckpoint_try_def readFileSync_def)

lemma loadCheckpoint_null:
  "parse s = Some JNull \<Longrightarrow> loadCheckpoint parse (Content s) = Inr empty_loaded"
  by (simp add: loadCheckpoint_def existsSync_def loadCheckpoint_try_def readFileSync_def
      get_prop_def)

lemma loadCheckpoint_returns: "\<exists>c. loadCheckpoint parse f = Inr c"
  by (simp add: loadCheckpoint_def split: sum.splits)

lemma loadCheckpoint_saved:
  assumes "parse (stringify (json_of_checkpoint c)) = Some (json_of_checkpoint c)"
  shows "loadCheckpoint parse (saveCheckpoint stringify c f) = Inr (loaded_of_checkpoint c)"
  using assms
  by (simp add: loadCheckpoint_def existsSync_def loadCheckpoint_try_def readFileSync_def
      saveCheckpoint_def get_prop_def json_of_checkpoint_def nullish_or_def
      loaded_of_checkpoint_def)

text \<open>
  Claim C6. Saving a checkpoint \<open>c\<close> and then loading returns the structure of \<open>c\<close>: its
  runs and its completed keys, under the field names they were written with. This rests on
  the runtime's \<open>JSON.parse\<close> giving back the value that \<open>JSON.stringify\<close> printed, which
  is the hypothesis of the first conjunct. Loading when the file is absent, when it cannot
  be read, or when its text does not parse (or parses to \<open>null\<close>) returns the empty
  checkpoint; and \<open>loadCheckpoint\<close> never throws, whatever the file holds.
\<close>

theorem checkpoint_save_load:
  "(parse (stringify (json_of_checkpoint c)) = Some (json_of_checkpoint c) \<longrightarrow>
      loadCheckpoint parse (saveCheckpoint stringify c f) = Inr (loaded_of_checkpoint c))
   \<and> loadCheckpoint parse Absent = Inr empty_loaded
   \<and> loadCheckpoint parse Unreadable = Inr empty_loaded
   \<and> (parse s = None \<longrightarrow> loadCheckpoint parse (Content s) = Inr empty_loaded)
   \<and> (parse s = Some JNull \<longrightarrow> loadCheckpoint parse (Content s) = Inr empty_loaded)
   \<and> (\<exists>loaded. loadCheckpoint parse f = Inr loaded)"
  using loadCheckpoint_saved [of parse stringify c f] loadCheckpoint_corrupt [of parse s]
    loadCheckpoint_null [of parse s] loadCheckpoint_returns [of parse f]
  by (simp add: loadCheckpoint_absent loadCheckpoint_unreadable)

theorem checkpoint_save_load_witness:
  "stored_parse (stored_stringify (json_of_checkpoint stored_checkpoint))
     = Some (json_of_checkpoint stored_checkpoint)
   \<and> loadCheckpoint stored_parse (saveCheckpoint stored_stringify stored_checkpoint Absent)
       = Inr (loaded_of_checkpoint stored_checkpoint)
   \<and> loaded_of_checkpoint stored_checkpoint
       = \<lparr>loaded_raw_runs = JArr [json_of_run stored_run],
          loaded_completedConfigs = JArr [JStr ''wiki-openai:5'']\<rparr>
   \<and> stored_parse ''{raw_runs:'' = None
   \<and> loadCheckpoint stored_parse (Content ''{raw_runs:'') = Inr empty_loaded
   \<and> stored_parse ''null'' = Some JNull
   \<and> loadCheckpoint stored_parse (Content ''null'') = Inr empty_loaded
   \<and> loadCheckpoint stored_parse Absent = Inr empty_loaded"
proof -
  have h: "stored_parse (stored_stringify (json_of_checkpoint stored_checkpoint))
     = Some (json_of_checkpoint stored_checkpoint)"
    by (simp add: stored_parse_def stored_stringify_def)
  have n: "stored_parse ''{raw_runs:'' = None"
    by (simp add: stored_parse_def stored_text_def)
  have z: "stored_parse ''null'' = Some JNull"
    by (simp add: stored_parse_def stored_text_def)
  from checkpoint_save_load [of stored_parse stored_stringify stored_checkpoint Absent "''{raw_runs:''"]
    checkpoint_save_load [of stored_parse stored_stringify stored_checkpoint Absent "''null''"] h n z
  show ?thesis
    by (simp add: loaded_of_checkpoint_def stored_checkpoint_def)
qed

section \<open>Facts about the query pool\<close>

lemma runQuery_head_inv:
  assumes "pool_inv n m s"
  shows "pool_inv n (Suc m) (runQuery_head n w s)"
  using assms
  by (auto simp: pool_inv_def runQuery_head_def Let_def)

lemma remove_nth_length: "j < length xs \<Longrightarrow> Suc (length (remove_nth j xs)) = length xs"
  by (simp add: remove_nth_def)

lemma runQuery_resume_inv:
  assumes "pool_inv n m s" and "j < length (in_flight s)"
  shows "pool_inv n m (runQuery_resume n w out (s\<lparr>in_flight := remove_nth j (in_flight s)\<rparr>))"
proof -
  let ?s1 = "s\<lparr>in_flight := remove_nth j (in_flight s)\<rparr>"
  let ?s2 = "(case out of
                  QueryOk latency \<Rightarrow> ?s1\<lparr>latencies := latencies ?s1 @ [latency]\<rparr>
                | QueryFailed \<Rightarrow> ?s1\<lparr>errors := errors ?s1 + 1\<rparr>)"
  let ?s3 = "?s2\<lparr>activeCount := activeCount ?s2 - 1\<rparr>"
  from assms(2) have m: "0 < m" using assms(1) by (auto simp: pool_inv_def)
  have "pool_inv n (m - 1) ?s3"
    using assms remove_nth_length [OF assms(2)]
    by (cases out) (auto simp: pool_inv_def)
  then have "pool_inv n (Suc (m - 1)) (runQuery_head n w ?s3)"
    by (rule runQuery_head_inv)
  with m show ?thesis
    by (simp add: runQuery_resume_def Let_def)
qed

lemma foldl_head_inv:
  "pool_inv n m s \<Longrightarrow> pool_inv n (m + length ws) (foldl (\<lambda>s w. runQuery_head n w s) s ws)"
proof (induction ws arbitrary: m s)
  case Nil
  then show ?case by simp
next
  case (Cons w ws)
  from runQuery_head_inv [OF Cons.prems] have "pool_inv n (Suc m) (runQuery_head n w s)" .
  from Cons.IH [OF this] show ?case by simp
qed

lemma start_workers_inv: "pool_inv n k (start_workers n k)"
proof -
  have "pool_inv n 0 pool_init" by (simp add: pool_inv_def pool_init_def)
  from foldl_head_inv [OF this, of "[0..<k]"] show ?thesis
    by (simp add: start_workers_def)
qed

lemma drain_inv:
  "pool_inv n m s \<Longrightarrow> pool_inv n m (drain n pick answer t s) \<and> in_flight (drain n pick answer t s) = []"
proof (induction n pick answer t s rule: drain.induct)
  case (1 n pick answer t s)
  show ?case
  proof (cases "in_flight s = []")
    case True
    with "1.prems" show ?thesis by (subst drain.simps, subst (2) drain.simps) simp
  next
    case False
    let ?j = "pick t mod length (in_flight s)"
    let ?w = "fst (in_flight s ! ?j)"
    let ?q = "snd (in_flight s ! ?j)"
    let ?s1 = "s\<lparr>in_flight := remove_nth ?j (in_flight s)\<rparr>"
    let ?s' = "runQuery_resume n ?w (answer ?q) ?s1"
    from False have j: "?j < length (in_flight s)" by simp
    have inv': "pool_inv n m ?s'"
      by (rule runQuery_resume_inv [OF "1.prems" j])
    have step: "drain n pick answer t s = drain n pick answer (t + 1) ?s'"
      using False by (subst drain.simps) (simp add: Let_def)
    from "1.IH" [OF False refl refl refl refl inv'] show ?thesis
      by (simp only: step)
  qed
qed

text \<open>
  Claim C2. For \<open>totalQueries = N\<close> and \<open>concurrency = K \<ge> 1\<close>, in whatever order the queries
  settle and whatever their outcomes: the queries issued are exactly the indices
  \<open>0, \<dots>, N - 1\<close>, each once (so each is claimed by one worker); when the pool resolves no
  query is in flight and all \<open>K\<close> workers have resolved; and the recorded latencies and the
  errors add up to \<open>N\<close>.
\<close>

theorem pool_attempts_each_index_once:
  assumes "1 \<le> concurrency"
  shows "map snd (issued (run_pool totalQueries concurrency pick answer)) = [0..<totalQueries]
       \<and> distinct (map snd (issued (run_pool totalQueries concurrency pick answer)))
       \<and> in_flight (run_pool totalQueries concurrency pick answer) = []
       \<and> length (finished (run_pool totalQueries concurrency pick answer)) = concurrency
       \<and> length (latencies (run_pool totalQueries concurrency pick answer))
           + errors (run_pool totalQueries concurrency pick answer) = totalQueries
       \<and> completedCount (run_pool totalQueries concurrency pick answer) = totalQueries
       \<and> activeCount (run_pool totalQueries concurrency pick answer) = 0"
proof -
  let ?s = "run_pool totalQueries concurrency pick answer"
  from drain_inv [OF start_workers_inv, of totalQueries concurrency pick answer 0]
  have inv: "pool_inv totalQueries concurrency ?s" and idle: "in_flight ?s = []"
    by (simp_all add: run_pool_def)
  from inv idle assms have "finished ?s \<noteq> []"
    by (auto simp: pool_inv_def)
  with inv have cc: "completedCount ?s = totalQueries"
    by (simp add: pool_inv_def)
  from inv idle cc show ?thesis
    by (simp add: pool_inv_def)
qed

theorem pool_attempts_each_index_once_witness:
  "(1::nat) \<le> 5
   \<and> map snd (issued (run_pool 37 5 oldest_first every_third_fails)) = [0..<37]
   \<and> distinct (map snd (issued (run_pool 37 5 oldest_first every_third_fails)))
   \<and> in_flight (run_pool 37 5 oldest_first every_third_fails) = []
   \<and> length (finished (run_pool 37 5 oldest_first every_third_fails)) = 5
   \<and> length (latencies (run_pool 37 5 oldest_first every_third_fails))
       + errors (run_pool 37 5 oldest_first every_third_fails) = 37
   \<and> activeCount (run_pool 37 5 oldest_first every_third_fails) = 0"
  using pool_attempts_each_index_once [of 5 37 oldest_first every_third_fails]
  by simp

section \<open>Facts about the upsert benchmark\<close>

lemma generateSyntheticRecords_length [simp]:
  "length (generateSyntheticRecords env ns count) = count"
  by (simp add: generateSyntheticRecords_def Let_def)

lemma below_ceiling_iff:
  assumes "0 < (b::nat)"
  shows "a < (r + b - 1) div b \<longleftrightarrow> a * b < r"
proof -
  have "a < (r + b - 1) div b \<longleftrightarrow> Suc a \<le> (r + b - 1) div b" by auto
  also have "\<dots> \<longleftrightarrow> Suc a * b \<le> r + b - 1"
    using assms by (simp add: less_eq_div_iff_mult_less_eq)
  also have "\<dots> \<longleftrightarrow> a * b < r"
    using assms by auto
  finally show ?thesis .
qed

lemma ceiling_divide_nat:
  assumes "0 < (b::nat)"
  shows "\<lceil>real r / real b\<rceil> = int ((r + b - 1) div b)"
proof (rule ceiling_unique)
  let ?n = "(r + b - 1) div b"
  have "\<not> ?n < ?n" by simp
  then have "\<not> ?n * b < r" using below_ceiling_iff [OF assms, of ?n r] by simp
  then have "r \<le> ?n * b" by simp
  then have "real r \<le> real (?n * b)" by (simp only: of_nat_le_iff)
  then show "real r / real b \<le> of_int (int ?n)"
    using assms by (simp add: divide_le_eq)
  show "of_int (int ?n) - 1 < real r / real b"
  proof (cases "?n = 0")
    case True
    have "0 \<le> real r / real b" by simp
    then have "- 1 < real r / real b" by linarith
    with True show ?thesis by simp
  next
    case False
    then have "?n - 1 < ?n" by simp
    then have "(?n - 1) * b < r" using below_ceiling_iff [OF assms, of "?n - 1" r] by simp
    then have "real ((?n - 1) * b) < real r" by (simp only: of_nat_less_iff)
    moreover have "real (?n - 1) = real ?n - 1" using False by (simp add: of_nat_diff)
    ultimately have "(real ?n - 1) * real b < real r" by simp
    then show ?thesis using assms by (simp add: less_divide_eq)
  qed
qed

text \<open>The batches the loop sends from batch number \<open>a\<close> on.\<close>

lemma upsert_loop_from:
  assumes b: "0 < batchSize" and ok: "\<forall>c. upsert_result env c = None"
    and n: "n = (length records + batchSize - 1) div batchSize"
  shows "a \<le> n \<Longrightarrow>
         \<exists>st'. upsert_loop env batchSize records (a * batchSize) st = Some (None, st')
           \<and> upsert_calls st' = upsert_calls st @
                map (\<lambda>j. (take batchSize (drop (j * batchSize) records), j = 0)) [a..<n]
           \<and> length (batchLatencies st') = length (batchLatencies st) + (n - a)"
proof (induction "n - a" arbitrary: a st)
  case 0
  then have "a = n" by simp
  then have "\<not> a * batchSize < length records"
    using below_ceiling_iff [OF b, of a "length records"] n by simp
  then show ?case
    using \<open>a = n\<close> by (subst upsert_loop.simps) simp
next
  case (Suc d)
  then have lt: "a < n" by simp
  then have run: "a * batchSize < length records"
    using below_ceiling_iff [OF b, of a "length records"] n by simp
  let ?batch = "take batchSize (drop (a * batchSize) records)"
  let ?st1 = "st\<lparr>upsert_calls := upsert_calls st @ [(?batch, a * batchSize = 0)],
                  clock_reads := clock_reads st + 1\<rparr>"
  let ?st2 = "?st1\<lparr>batchLatencies := batchLatencies ?st1 @
                      [performance_now env (clock_reads ?st1) - performance_now env (clock_reads st)],
                    clock_reads := clock_reads ?st1 + 1\<rparr>"
  have step: "upsert_loop env batchSize records (a * batchSize) st
                = upsert_loop env batchSize records (Suc a * batchSize) ?st2"
    using run ok by (subst upsert_loop.simps) (simp add: Let_def add.commute)
  from Suc.hyps(2) lt have "d = n - Suc a" "Suc a \<le> n" by simp_all
  from Suc.hyps(1) [OF this, of ?st2] obtain st' where
    r: "upsert_loop env batchSize records (Suc a * batchSize) ?st2 = Some (None, st')"
       "upsert_calls st' = upsert_calls ?st2 @
                map (\<lambda>j. (take batchSize (drop (j * batchSize) records), j = 0)) [Suc a..<n]"
       "length (batchLatencies st') = length (batchLatencies ?st2) + (n - Suc a)"
    by blast
  have z: "(a * batchSize = 0) = (a = 0)" using b by simp
  have "[a..<n] = a # [Suc a..<n]" using lt by (simp add: upt_conv_Cons)
  with r z lt step show ?case
    by simp
qed

lemma concat_batches:
  assumes "0 < (b::nat)"
  shows "concat (map (\<lambda>j. take b (drop (j * b) xs)) [0..<n]) = take (n * b) xs"
proof (induction n)
  case 0
  then show ?case by simp
next
  case (Suc n)
  have "take (n * b) xs @ take b (drop (n * b) xs) = take (n * b + b) xs"
    by (simp add: take_add)
  with Suc show ?case by (simp add: add.commute)
qed

text \<open>
  Claim C9. For \<open>total_records = R\<close> and \<open>batch_size = B \<ge> 1\<close>, with a backend that accepts
  every call, the benchmark ends; the \<open>R\<close> generated records go to the backend in
  \<open>ceil(R / B)\<close> \<open>upsert\<close> calls made one after the other, each awaited before the next, call
  number \<open>j\<close> carrying the records \<open>j * B, \<dots>, j * B + B - 1\<close> (the batches concatenate to the
  records), and the flag \<open>isFirstBatch\<close> is true for call 0 and false for every later call.
  With at least one record (and fewer than \<open>2\<^sup>5\<^sup>3\<close>, as in every array) the run returns its
  result, with one latency for each batch and, the quotient being a double division, with
  \<open>num_batches = ceil(R / B)\<close> for \<open>B\<close> below \<open>2\<^sup>5\<^sup>3\<close>. With \<open>R = 0\<close> there is no batch, no call
  is made, and the run ends in the \<open>TypeError\<close> of printing the percentile of no latency.
\<close>

theorem upsert_batches_sequential:
  assumes "1 \<le> batchSize" and "ensure_result env = None" and "\<forall>c. upsert_result env c = None"
  shows "\<exists>out st. runUpsertBenchmark env ns (Some totalRecords) (Some batchSize) = Some (out, st)
     \<and> length (generateSyntheticRecords env ns totalRecords) = totalRecords
     \<and> upsert_calls st =
          map (\<lambda>j. (take batchSize (drop (j * batchSize) (generateSyntheticRecords env ns totalRecords)),
                     j = 0))
            [0..<nat \<lceil>real totalRecords / real batchSize\<rceil>]
     \<and> concat (map fst (upsert_calls st)) = generateSyntheticRecords env ns totalRecords
     \<and> (totalRecords = 0 \<longrightarrow> out = Inl TypeError)
     \<and> (0 < totalRecords \<and> totalRecords < 2 ^ 53 \<longrightarrow>
          (\<exists>res. out = Inr res
             \<and> length (batch_latencies_ms res) = nat \<lceil>real totalRecords / real batchSize\<rceil>
             \<and> (batchSize < 2 ^ 53 \<longrightarrow>
                  num_batches res = Num (real_of_int \<lceil>real totalRecords / real batchSize\<rceil>))))"
proof -
  let ?records = "generateSyntheticRecords env ns totalRecords"
  let ?n = "(totalRecords + batchSize - 1) div batchSize"
  let ?st0 = "\<lparr>upsert_calls = [], batchLatencies = [], clock_reads = 0\<rparr>\<lparr>clock_reads := 1\<rparr>"
  from assms(1) have b: "0 < batchSize" by simp
  have c: "\<lceil>real totalRecords / real batchSize\<rceil> = int ?n"
    by (rule ceiling_divide_nat [OF b])
  have "\<exists>st'. upsert_loop env batchSize ?records (0 * batchSize) ?st0 = Some (None, st')
           \<and> upsert_calls st' = upsert_calls ?st0 @
                map (\<lambda>j. (take batchSize (drop (j * batchSize) ?records), j = 0)) [0..<?n]
           \<and> length (batchLatencies st') = length (batchLatencies ?st0) + (?n - 0)"
    by (rule upsert_loop_from [OF b assms(3)]) simp_all
  then obtain st' where
    l: "upsert_loop env batchSize ?records 0 ?st0 = Some (None, st')"
    and calls: "upsert_calls st' = map (\<lambda>j. (take batchSize (drop (j * batchSize) ?records), j = 0)) [0..<?n]"
    and lat: "length (batchLatencies st') = ?n"
    by auto
  have "\<not> ?n * batchSize < totalRecords"
    using below_ceiling_iff [OF b, of ?n totalRecords] by simp
  then have cover: "take (?n * batchSize) ?records = ?records" by simp
  have cc: "concat (map fst (upsert_calls st')) = ?records"
    using concat_batches [OF b, of ?records ?n] cover
    by (simp add: calls comp_def)
  have nz: "real batchSize \<noteq> 0" using b by simp
  have nb: "totalRecords < 2 ^ 53 \<longrightarrow> batchSize < 2 ^ 53 \<longrightarrow>
              js_ceil (dbl_div (Num (real totalRecords)) (Num (real batchSize)))
                = Num (real_of_int \<lceil>real totalRecords / real batchSize\<rceil>)"
    using ceiling_dbl_div_nat [OF b] by simp
  have nle: "?n \<le> totalRecords"
  proof -
    from b obtain k where "batchSize = Suc k" by (cases batchSize) auto
    then have "totalRecords * batchSize = totalRecords + totalRecords * k" by simp
    then have "\<not> totalRecords * batchSize < totalRecords" by linarith
    then have "\<not> totalRecords < ?n"
      using below_ceiling_iff [OF b, of totalRecords totalRecords] by simp
    then show ?thesis by simp
  qed
  have npos: "0 < ?n" if "0 < totalRecords"
  proof -
    from that b have "batchSize \<le> totalRecords + batchSize - 1" by simp
    then have "batchSize div batchSize \<le> ?n" by (rule div_le_mono)
    with b show ?thesis by simp
  qed
  show ?thesis
  proof (cases "percentile (batchLatencies st') 95")
    case None
    have z: "totalRecords = 0 \<or> \<not> totalRecords < 2 ^ 53"
    proof (rule ccontr)
      assume "\<not> ?thesis"
      then have r: "0 < totalRecords" "totalRecords < 2 ^ 53" by simp_all
      from npos [OF r(1)] lat have "batchLatencies st' \<noteq> []" by auto
      moreover from nle r(2) lat have "length (batchLatencies st') < 2 ^ 53" by simp
      ultimately have "\<exists>v. percentile (batchLatencies st') 95 = Some v"
        by (intro percentile_defined) simp_all
      with None show False by simp
    qed
    show ?thesis
      using l calls cc lat assms(2) nz None z
      by (simp add: runUpsertBenchmark_def Let_def c)
  next
    case (Some v)
    have "totalRecords \<noteq> 0"
    proof
      assume "totalRecords = 0"
      with nle lat have "batchLatencies st' = []" by simp
      with Some show False by (simp add: percentile_Nil)
    qed
    then show ?thesis
      using l calls cc lat assms(2) nz nb Some
      by (simp add: runUpsertBenchmark_def Let_def c)
  qed
qed

theorem upsert_batches_sequential_witness:
  "(\<exists>res st. runUpsertBenchmark calm_env ''wiki-gte'' (Some 5) (Some 2) = Some (Inr res, st)
      \<and> num_batches res = Num 3
      \<and> map (\<lambda>c. length (fst c)) (upsert_calls st) = [2, 2, 1]
      \<and> map snd (upsert_calls st) = [True, False, False])
   \<and> (\<exists>st. runUpsertBenchmark calm_env ''wiki-gte'' (Some 0) (Some 2) = Some (Inl TypeError, st)
      \<and> upsert_calls st = [])"
proof -
  have h: "(1::nat) \<le> 2" "ensure_result calm_env = None" "\<forall>c. upsert_result calm_env c = None"
    by (simp_all add: calm_env_def)
  have c: "\<lceil>real 5 / real 2\<rceil> = (3::int)"
    by (simp add: ceiling_divide_nat)
  have u: "[0..<3] = [0, 1, 2::nat]" by (simp add: upt_rec)
  from upsert_batches_sequential [OF h, of "''wiki-gte''" 5] obtain out st where
    r: "runUpsertBenchmark calm_env ''wiki-gte'' (Some 5) (Some 2) = Some (out, st)"
       "upsert_calls st =
          map (\<lambda>j. (take 2 (drop (j * 2) (generateSyntheticRecords calm_env ''wiki-gte'' 5)), j = 0))
            [0..<nat \<lceil>real 5 / real 2\<rceil>]"
       "0 < (5::nat) \<and> (5::nat) < 2 ^ 53 \<longrightarrow>
          (\<exists>res. out = Inr res
             \<and> length (batch_latencies_ms res) = nat \<lceil>real 5 / real 2\<rceil>
             \<and> ((2::nat) < 2 ^ 53 \<longrightarrow>
                  num_batches res = Num (real_of_int \<lceil>real 5 / real 2\<rceil>)))"
    by blast
  from r(3) obtain res where
    o: "out = Inr res" "num_batches res = Num (real_of_int \<lceil>real 5 / real 2\<rceil>)"
    by auto
  have "map (\<lambda>c. length (fst c)) (upsert_calls st) = [2, 2, 1]"
    "map snd (upsert_calls st) = [True, False, False]"
    using r(2) by (simp_all add: c u min_def)
  with r(1) o c have five:
    "\<exists>res st. runUpsertBenchmark calm_env ''wiki-gte'' (Some 5) (Some 2) = Some (Inr res, st)
      \<and> num_batches res = Num 3
      \<and> map (\<lambda>c. length (fst c)) (upsert_calls st) = [2, 2, 1]
      \<and> map snd (upsert_calls st) = [True, False, False]"
    by simp
  from upsert_batches_sequential [OF h, of "''wiki-gte''" 0] obtain out0 st0 where
    z: "runUpsertBenchmark calm_env ''wiki-gte'' (Some 0) (Some 2) = Some (out0, st0)"
       "upsert_calls st0 =
          map (\<lambda>j. (take 2 (drop (j * 2) (generateSyntheticRecords calm_env ''wiki-gte'' 0)), j = 0))
            [0..<nat \<lceil>real 0 / real 2\<rceil>]"
       "(0::nat) = 0 \<longrightarrow> out0 = Inl TypeError"
    by blast
  then have "runUpsertBenchmark calm_env ''wiki-gte'' (Some 0) (Some 2) = Some (Inl TypeError, st0)"
    "upsert_calls st0 = []"
    by simp_all
  with five show ?thesis by blast
qed

text \<open>
  The bound \<open>B \<ge> 1\<close> is needed: with \<open>batchSize = 0\<close> and at least one record the loop
  sends the empty batch for ever.
\<close>

lemma upsert_loop_zero_batch_aux:
  "upsert_loop env batchSize records i st = Some y \<Longrightarrow>
   \<not> (batchSize = 0 \<and> i < length records \<and> (\<forall>c. upsert_result env c = None))"
proof (induction rule: upsert_loop.raw_induct [rotated -1, consumes 1])
  case (1 loop env batchSize records i st y)
  show ?case
  proof
    assume a: "batchSize = 0 \<and> i < length records \<and> (\<forall>c. upsert_result env c = None)"
    with "1.hyps" obtain st2 where "loop env batchSize records (i + batchSize) st2 = Some y"
      by (auto simp: Let_def)
    from "1.IH" [OF this] a show False by simp
  qed
qed

lemma upsert_loop_zero_batch:
  "i < length records \<Longrightarrow> \<forall>c. upsert_result env c = None \<Longrightarrow>
   upsert_loop env 0 records i st = None"
  using upsert_loop_zero_batch_aux [of env 0 records i st]
  by (cases "upsert_loop env 0 records i st") auto

end
